theory Spec2Isabelle
  imports Complex_Main "HOL-Library.Multiset" "HOL-Library.Sublist" "HOL-Library.Product_Lexorder"
begin

section \<open>HMV fair-quote tool: the matching engine of app.py\<close>

text \<open>
  The theory embeds the computational core of \<^verbatim>\<open>app.py\<close>: the text normaliser, the
  combined key, the greedy clustering of keys, the per-cluster statistics, the overlap
  score, the three-tier query matcher and the decision classifier.

  Conventions of the embedding.
  \<^item> Text is ASCII: a \<^typ>\<open>string\<close> is a list of characters, \<^verbatim>\<open>str.upper\<close> maps
    \<^verbatim>\<open>a-z\<close> to \<^verbatim>\<open>A-Z\<close>, the classes \<^verbatim>\<open>\d\<close>, \<^verbatim>\<open>\w\<close> and \<^verbatim>\<open>\s\<close> of the
    \<^verbatim>\<open>re\<close> module are read on ASCII.
  \<^item> A spreadsheet cell is an \<^typ>\<open>'a option\<close>: \<open>None\<close> is the missing value (NaN) that
    \<^verbatim>\<open>pd.isna\<close> recognises.
  \<^item> Hours and scores are exact rationals (type \<^typ>\<open>rat\<close>); binary floating-point
    rounding of the arithmetic is not modelled.
  \<^item> Functions of the libraries whose code is not part of the repository
    (\<^verbatim>\<open>fuzz.token_set_ratio\<close>, the order \<^verbatim>\<open>sort_values\<close> gives to ties) are
    parameters of the definitions that call them; the sequence matcher of \<^verbatim>\<open>difflib\<close>
    is modelled after the standard library.
\<close>

subsection \<open>Character classes\<close>

definition code :: "char \<Rightarrow> nat" where
  "code c = of_char c"

definition is_digit :: "char \<Rightarrow> bool" where
  "is_digit c = (48 \<le> code c \<and> code c \<le> 57)"

definition is_lower :: "char \<Rightarrow> bool" where
  "is_lower c = (97 \<le> code c \<and> code c \<le> 122)"

definition is_upper :: "char \<Rightarrow> bool" where
  "is_upper c = (65 \<le> code c \<and> code c \<le> 90)"

text \<open>The class \<^verbatim>\<open>\w\<close>: letters, digits and the underscore.\<close>

definition is_word :: "char \<Rightarrow> bool" where
  "is_word c = (is_digit c \<or> is_lower c \<or> is_upper c \<or> code c = 95)"

text \<open>
  The class \<^verbatim>\<open>\s\<close>, which is also what \<^verbatim>\<open>str.strip()\<close> and \<^verbatim>\<open>str.split()\<close>
  treat as whitespace: tab, line feed, vertical tab, form feed, carriage return, the four
  separators \<^verbatim>\<open>\x1c\<close> to \<^verbatim>\<open>\x1f\<close>, and the space.
\<close>

definition is_space :: "char \<Rightarrow> bool" where
  "is_space c = ((9 \<le> code c \<and> code c \<le> 13) \<or> (28 \<le> code c \<and> code c \<le> 32))"

text \<open>The class \<^verbatim>\<open>[-/]\<close>.\<close>

definition is_sep :: "char \<Rightarrow> bool" where
  "is_sep c = (c = CHR ''-'' \<or> c = CHR ''/'')"

definition upper_char :: "char \<Rightarrow> char" where
  "upper_char c = (if is_lower c then char_of (code c - 32) else c)"

definition upper :: "string \<Rightarrow> string" where
  "upper s = map upper_char s"

subsection \<open>The date pattern\<close>

text \<open>
  \<^verbatim>\<open>\b\<close> holds between two positions when exactly one side is a word character; the
  start and the end of the text count as non-word. The first argument says whether the
  character before the position is a word character, the second is the text from the
  position on.
\<close>

definition word_boundary :: "bool \<Rightarrow> string \<Rightarrow> bool" where
  "word_boundary prev_word s = (prev_word \<noteq> (case s of [] \<Rightarrow> False | c # _ \<Rightarrow> is_word c))"

text \<open>\<^verbatim>\<open>\d{n}\<close> at the head of the text.\<close>

definition digits_at :: "nat \<Rightarrow> string \<Rightarrow> bool" where
  "digits_at n s = (n \<le> length s \<and> list_all is_digit (take n s))"

text \<open>
  One way through \<^verbatim>\<open>\d{1,2}[-/]\d{1,2}[-/]\d{2,4}\b\<close>: the three repetition counts
  are fixed to \<open>a\<close>, \<open>b\<close> and \<open>c\<close>.
\<close>

definition alt_matches :: "nat \<times> nat \<times> nat \<Rightarrow> string \<Rightarrow> bool" where
  "alt_matches alt s =
     (case alt of (a, b, c) \<Rightarrow>
        digits_at a s \<and>
        (case drop a s of [] \<Rightarrow> False
         | x # s1 \<Rightarrow> is_sep x \<and> digits_at b s1 \<and>
            (case drop b s1 of [] \<Rightarrow> False
             | y # s2 \<Rightarrow> is_sep y \<and> digits_at c s2 \<and> word_boundary True (drop c s2))))"

text \<open>
  The greedy quantifiers try the longer repetition first and backtrack from the right,
  which gives this order of the alternatives.
\<close>

definition date_alts :: "(nat \<times> nat \<times> nat) list" where
  "date_alts = concat (map (\<lambda>a. concat (map (\<lambda>b. map (\<lambda>c. (a, b, c)) [4, 3, 2]) [2, 1])) [2, 1])"

text \<open>
  A match attempt of \<^verbatim>\<open>\b\d{1,2}[-/]\d{1,2}[-/]\d{2,4}\b\<close> at one position: the length
  of the match, if there is one.
\<close>

definition match_date :: "bool \<Rightarrow> string \<Rightarrow> nat option" where
  "match_date prev_word s =
     (if word_boundary prev_word s
      then (case filter (\<lambda>alt. alt_matches alt s) date_alts of
              [] \<Rightarrow> None
            | (a, b, c) # _ \<Rightarrow> Some (a + 1 + b + 1 + c))
      else None)"

text \<open>
  \<^verbatim>\<open>re.sub(r'\b\d{1,2}[-/]\d{1,2}[-/]\d{2,4}\b', '', text)\<close>: scan from the left, delete
  each match and go on behind it; a match ends in a digit, so the text behind it is
  preceded by a word character.
\<close>

function sub_dates :: "bool \<Rightarrow> string \<Rightarrow> string" where
  "sub_dates prev_word [] = []"
| "sub_dates prev_word (c # cs) =
     (case match_date prev_word (c # cs) of
        Some n \<Rightarrow> sub_dates True (drop (n - 1) cs)
      | None \<Rightarrow> c # sub_dates (is_word c) cs)"
  by pat_completeness auto
termination
  by (relation "measure (\<lambda>(p, s). length s)") auto

subsection \<open>Whitespace\<close>

text \<open>\<^verbatim>\<open>re.sub(r'\s+', ' ', text)\<close>: every maximal run of whitespace becomes one space.\<close>

function collapse_ws :: "string \<Rightarrow> string" where
  "collapse_ws [] = []"
| "collapse_ws (c # cs) =
     (if is_space c then CHR '' '' # collapse_ws (dropWhile is_space cs)
      else c # collapse_ws cs)"
  by pat_completeness auto
termination
  by (relation "measure length") (auto simp: le_imp_less_Suc length_dropWhile_le)

text \<open>\<^verbatim>\<open>str.strip()\<close>.\<close>

definition strip :: "string \<Rightarrow> string" where
  "strip s = rev (dropWhile is_space (rev (dropWhile is_space s)))"

text \<open>\<^verbatim>\<open>str.split()\<close>: the maximal runs of non-whitespace characters.\<close>

function split_ws :: "string \<Rightarrow> string list" where
  "split_ws [] = []"
| "split_ws (c # cs) =
     (if is_space c then split_ws cs
      else takeWhile (\<lambda>x. \<not> is_space x) (c # cs) # split_ws (dropWhile (\<lambda>x. \<not> is_space x) cs))"
  by pat_completeness auto
termination
  by (relation "measure length") (auto simp: le_imp_less_Suc length_dropWhile_le)

subsection \<open>normalize_text and the combined key\<close>

definition normalize_text :: "string option \<Rightarrow> string" where
  "normalize_text text =
     (case text of
        None \<Rightarrow> []
      | Some t \<Rightarrow> strip (collapse_ws (sub_dates False (upper t))))"

text \<open>\<^verbatim>\<open>str(x)\<close> of a cell: the missing value is the float NaN, which prints as \<^verbatim>\<open>nan\<close>.\<close>

definition py_str :: "string option \<Rightarrow> string" where
  "py_str x = (case x of None \<Rightarrow> ''nan'' | Some t \<Rightarrow> t)"

definition marker :: string where
  "marker = ''(FOR REFERENCE ONLY)''"

text \<open>\<^verbatim>\<open>s.replace("(FOR REFERENCE ONLY)", "")\<close>: every occurrence, from the left.\<close>

function remove_marker :: "string \<Rightarrow> string" where
  "remove_marker [] = []"
| "remove_marker (c # cs) =
     (if take (length marker) (c # cs) = marker
      then remove_marker (drop (length marker - 1) cs)
      else c # remove_marker cs)"
  by pat_completeness auto
termination
  by (relation "measure length") auto

record raw_row =
  description :: "string option"
  corrective_action :: "string option"
  total_hours :: "rat option"

definition normalized_corrective :: "raw_row \<Rightarrow> string" where
  "normalized_corrective r = normalize_text (corrective_action r)"

definition normalized_discrepancy :: "raw_row \<Rightarrow> string" where
  "normalized_discrepancy r = normalize_text (Some (remove_marker (py_str (description r))))"

definition combined_key :: "raw_row \<Rightarrow> string" where
  "combined_key r = normalized_discrepancy r @ '' | '' @ normalized_corrective r"

subsection \<open>Clustering of the combined keys\<close>

text \<open>
  \<^verbatim>\<open>Series.unique()\<close>: the distinct values in the order of their first occurrence.
  (\<^const>\<open>remdups\<close> keeps the last occurrence of each value, hence the two reversals.)
\<close>

definition unique :: "'a list \<Rightarrow> 'a list" where
  "unique xs = rev (remdups (rev xs))"

text \<open>
  The dictionary \<^verbatim>\<open>clusters\<close> keeps its entries in insertion order: a list of pairs of
  a representative and the keys of its cluster.
\<close>

type_synonym clusters = "(string \<times> string list) list"

text \<open>
  The inner \<^verbatim>\<open>for rep in clusters\<close> loop: the key is appended to the first cluster
  whose representative scores at least 90, and the loop breaks; \<open>None\<close> is the loop
  running to its end without \<^verbatim>\<open>break\<close>.
\<close>

fun join_first :: "(string \<Rightarrow> string \<Rightarrow> nat) \<Rightarrow> string \<Rightarrow> clusters \<Rightarrow> clusters option" where
  "join_first tsr k [] = None"
| "join_first tsr k ((rep, lst) # cl) =
     (if tsr k rep \<ge> 90 then Some ((rep, lst @ [k]) # cl)
      else map_option (\<lambda>cl'. (rep, lst) # cl') (join_first tsr k cl))"

text \<open>\<^verbatim>\<open>d[k] = v\<close>: an existing entry keeps its place, a new one goes to the end.\<close>

fun dict_set :: "'k \<Rightarrow> 'v \<Rightarrow> ('k \<times> 'v) list \<Rightarrow> ('k \<times> 'v) list" where
  "dict_set k v [] = [(k, v)]"
| "dict_set k v ((k', v') # d) = (if k' = k then (k, v) # d else (k', v') # dict_set k v d)"

text \<open>One round of the outer loop; \<open>tsr\<close> is \<^verbatim>\<open>fuzz.token_set_ratio\<close>.\<close>

definition cluster_step :: "(string \<Rightarrow> string \<Rightarrow> nat) \<Rightarrow> clusters \<Rightarrow> string \<Rightarrow> clusters" where
  "cluster_step tsr cl k =
     (if k = [] then cl
      else (case join_first tsr k cl of
              Some cl' \<Rightarrow> cl'
            | None \<Rightarrow> dict_set k [k] cl))"

definition build_clusters :: "(string \<Rightarrow> string \<Rightarrow> nat) \<Rightarrow> string list \<Rightarrow> clusters" where
  "build_clusters tsr ks = foldl (cluster_step tsr) [] (unique ks)"

text \<open>
  \<^verbatim>\<open>{k: r for r, lst in clusters.items() for k in lst}\<close>: a later pair overwrites an
  earlier one with the same key, so the lookup reads the pairs from the end.
\<close>

definition key_to_rep :: "clusters \<Rightarrow> string \<Rightarrow> string option" where
  "key_to_rep cl = map_of (rev (concat (map (\<lambda>(r, lst). map (\<lambda>k. (k, r)) lst) cl)))"

subsection \<open>Cluster statistics and the reference table\<close>

record ref_row =
  source :: raw_row
  normalized_disc :: string
  normalized_corr :: string
  combined :: string
  cluster_key :: "string option"
  actual_historic_hours :: "rat option"
  occurrences :: "nat option"
  fair_quote :: "rat option"

text \<open>
  \<^verbatim>\<open>df.groupby('Cluster Key')['Total Hours']\<close>: the hours of one group. The
  aggregations \<^verbatim>\<open>mean\<close> and \<^verbatim>\<open>count\<close> of pandas leave the missing values out.
\<close>

definition group_hours :: "(raw_row \<times> string option) list \<Rightarrow> string \<Rightarrow> rat list" where
  "group_hours keyed ck =
     concat (map (\<lambda>(r, k). if k = Some ck then (case total_hours r of None \<Rightarrow> [] | Some h \<Rightarrow> [h]) else [])
                 keyed)"

definition agg_mean :: "rat list \<Rightarrow> rat option" where
  "agg_mean hs = (if hs = [] then None else Some (sum_list hs / of_nat (length hs)))"

definition agg_count :: "rat list \<Rightarrow> nat" where
  "agg_count hs = length hs"

text \<open>Rounding to the nearest integer, a tie going to the even neighbour.\<close>

definition round_half_even :: "rat \<Rightarrow> int" where
  "round_half_even x =
     (let f = \<lfloor>x\<rfloor>; d = x - of_int f
      in if d < 1 / 2 then f
         else if 1 / 2 < d then f + 1
         else if even f then f else f + 1)"

text \<open>\<^verbatim>\<open>Series.round(2)\<close>.\<close>

definition round2 :: "rat \<Rightarrow> rat" where
  "round2 x = of_int (round_half_even (x * 100)) / 100"

text \<open>
  The left merge of the group table into the rows: a row whose cluster key is missing
  finds no group.
\<close>

definition annotate :: "(raw_row \<times> string option) list \<Rightarrow> raw_row \<times> string option \<Rightarrow> ref_row" where
  "annotate keyed rk =
     (case rk of (r, ck) \<Rightarrow>
        (let mean = (case ck of None \<Rightarrow> None | Some c \<Rightarrow> agg_mean (group_hours keyed c));
             cnt = (case ck of None \<Rightarrow> None | Some c \<Rightarrow> Some (agg_count (group_hours keyed c)))
         in \<lparr> source = r,
              normalized_disc = normalized_discrepancy r,
              normalized_corr = normalized_corrective r,
              combined = combined_key r,
              cluster_key = ck,
              actual_historic_hours = mean,
              occurrences = cnt,
              fair_quote = map_option round2 mean \<rparr>))"

text \<open>The preprocessing of the loaded data frame, lines 74 to 97.\<close>

definition build_reference :: "(string \<Rightarrow> string \<Rightarrow> nat) \<Rightarrow> raw_row list \<Rightarrow> ref_row list" where
  "build_reference tsr raws =
     (let cl = build_clusters tsr (map combined_key raws);
          keyed = map (\<lambda>r. (r, key_to_rep cl (combined_key r))) raws
      in map (annotate keyed) keyed)"

subsection \<open>The overlap score\<close>

text \<open>
  \<open>ratio\<close> is \<^verbatim>\<open>difflib.SequenceMatcher(None, a, b).ratio()\<close> on two token lists.
\<close>

definition semantic_overlap :: "(string list \<Rightarrow> string list \<Rightarrow> rat) \<Rightarrow> string \<Rightarrow> string \<Rightarrow> rat" where
  "semantic_overlap ratio a b =
     (if a = [] \<or> b = [] then 0 else ratio (split_ws a) (split_ws b) * 100)"


subsection \<open>The decision classifier\<close>

text \<open>
  The four conclusion texts of \<^verbatim>\<open>get_decision_conclusion\<close>, in the order of the
  source:
  \<^item> \<open>No_Historical_Data\<close>: "No historical data available [...] manual review recommended."
  \<^item> \<open>Fair_Quote_Below\<close>: "FAIR QUOTE: Supplier below historic average. Consider approving."
  \<^item> \<open>In_Expected_Range\<close>: "IN EXPECTED RANGE (+-5%). Consider approving."
  \<^item> \<open>Higher_Than_Historic\<close>: "HIGHER THAN HISTORIC [...] Needs BP review."
\<close>

datatype conclusion = No_Historical_Data | Fair_Quote_Below | In_Expected_Range | Higher_Than_Historic

record decision =
  conclusion_text :: conclusion
  color :: string
  percent_display :: string
  diff_class :: string

definition digit_char :: "nat \<Rightarrow> char" where
  "digit_char d = char_of (48 + d)"

text \<open>The decimal numeral of a natural number.\<close>

function show_nat :: "nat \<Rightarrow> string" where
  "show_nat n = (if n < 10 then [digit_char n] else show_nat (n div 10) @ [digit_char (n mod 10)])"
  by pat_completeness auto
termination
  by (relation "measure id") auto

declare show_nat.simps [simp del]

text \<open>
  The format \<^verbatim>\<open>:.1f\<close>: the value rounded to one decimal (a tie to the even digit), a
  minus sign for a negative value, also when it rounds to zero.
\<close>

definition format_1f :: "rat \<Rightarrow> string" where
  "format_1f x =
     (let n = nat (round_half_even (\<bar>x\<bar> * 10))
      in (if x < 0 then ''-'' else '''') @ show_nat (n div 10) @ ''.'' @ [digit_char (n mod 10)])"

definition get_decision_conclusion :: "rat \<Rightarrow> rat option \<Rightarrow> decision" where
  "get_decision_conclusion supplier fair =
     (case fair of
        None \<Rightarrow>
          \<lparr> conclusion_text = No_Historical_Data, color = ''#b0202e'',
            percent_display = ''N/A (no historical data)'', diff_class = ''diff-neutral'' \<rparr>
      | Some f \<Rightarrow>
          if f = 0 then
            \<lparr> conclusion_text = No_Historical_Data, color = ''#b0202e'',
              percent_display = ''N/A (no historical data)'', diff_class = ''diff-neutral'' \<rparr>
          else
            (let percent_diff = ((supplier - f) / f) * 100;
                 dclass = (if percent_diff < 0 then ''diff-negative''
                           else if \<bar>percent_diff\<bar> \<le> 5 then ''diff-neutral''
                           else ''diff-positive'');
                 sign = (if percent_diff \<ge> 0 then ''+'' else '''');
                 display = sign @ format_1f percent_diff @ ''%''
             in if supplier < f then
                  \<lparr> conclusion_text = Fair_Quote_Below, color = ''#22aa58'',
                    percent_display = display, diff_class = dclass \<rparr>
                else if \<bar>supplier - f\<bar> / f \<le> 5 / 100 then
                  \<lparr> conclusion_text = In_Expected_Range, color = ''#222f3e'',
                    percent_display = display, diff_class = dclass \<rparr>
                else
                  \<lparr> conclusion_text = Higher_Than_Historic, color = ''#b0202e'',
                    percent_display = display, diff_class = dclass \<rparr>))"

subsection \<open>The three tiers\<close>












subsection \<open>difflib.SequenceMatcher on token lists\<close>

text \<open>
  \<^verbatim>\<open>semantic_overlap\<close> calls \<^verbatim>\<open>difflib.SequenceMatcher(None, a.split(), b.split()).ratio()\<close>.
  The module \<^verbatim>\<open>difflib\<close> belongs to the Python standard library, not to the repository;
  the definitions of this subsection follow \<^verbatim>\<open>difflib.py\<close> of CPython 3 for the call
  made here: no junk predicate (\<^verbatim>\<open>isjunk = None\<close>), \<^verbatim>\<open>autojunk = True\<close>. Indices are
  natural numbers; the ratio is an exact rational.
\<close>

type_synonym tokens = "string list"

type_synonym block = "nat \<times> nat \<times> nat"

text \<open>
  \<^verbatim>\<open>__chain_b\<close>: in a sequence of at least 200 elements, an element that occurs more
  than \<^verbatim>\<open>n // 100 + 1\<close> times is popular and is dropped from \<^verbatim>\<open>b2j\<close>.
\<close>

definition popular :: "tokens \<Rightarrow> string \<Rightarrow> bool" where
  "popular b elt = (200 \<le> length b \<and> length b div 100 + 1 < count_list b elt)"

text \<open>\<^verbatim>\<open>b2j.get(elt, [])\<close>: the indices of the element in \<open>b\<close>, in increasing order.\<close>

definition b2j :: "tokens \<Rightarrow> string \<Rightarrow> nat list" where
  "b2j b elt = (if popular b elt then [] else filter (\<lambda>j. b ! j = elt) [0..<length b])"

text \<open>\<^verbatim>\<open>bjunk.__contains__\<close>: without a junk predicate the set of junk elements is empty.\<close>

definition isbjunk :: "string \<Rightarrow> bool" where
  "isbjunk elt = False"

text \<open>\<^verbatim>\<open>d.get(j, 0)\<close> on a dictionary from indices to lengths.\<close>

definition get0 :: "(nat \<rightharpoonup> nat) \<Rightarrow> nat \<Rightarrow> nat" where
  "get0 d j = (case d j of None \<Rightarrow> 0 | Some v \<Rightarrow> v)"

text \<open>
  The inner loop of \<^verbatim>\<open>find_longest_match\<close> over the indices \<open>j\<close> of \<^verbatim>\<open>a[i]\<close> in \<open>b\<close>:
  \<^verbatim>\<open>continue\<close> below \<open>blo\<close>, \<^verbatim>\<open>break\<close> from \<open>bhi\<close> on, else
  \<^verbatim>\<open>k = newj2len[j] = j2len.get(j-1, 0) + 1\<close> and a longer match replaces the best one.
  The key \<open>j - 1\<close> of the source is \<open>-1\<close> for \<open>j = 0\<close> and is never in the dictionary.
\<close>

fun inner_loop ::
  "(nat \<rightharpoonup> nat) \<Rightarrow> nat \<Rightarrow> nat \<Rightarrow> nat \<Rightarrow> nat list \<Rightarrow> (nat \<rightharpoonup> nat) \<times> block \<Rightarrow> (nat \<rightharpoonup> nat) \<times> block" where
  "inner_loop j2len i blo bhi [] st = st"
| "inner_loop j2len i blo bhi (j # js) (newj2len, besti, bestj, bestsize) =
     (if j < blo then inner_loop j2len i blo bhi js (newj2len, besti, bestj, bestsize)
      else if bhi \<le> j then (newj2len, besti, bestj, bestsize)
      else (let k = (if j = 0 then 0 else get0 j2len (j - 1)) + 1
            in inner_loop j2len i blo bhi js
                 (newj2len(j \<mapsto> k),
                  if bestsize < k then (i + 1 - k, j + 1 - k, k) else (besti, bestj, bestsize))))"

text \<open>One round of \<^verbatim>\<open>for i in range(alo, ahi)\<close>, and the whole loop.\<close>

definition outer_step ::
  "tokens \<Rightarrow> tokens \<Rightarrow> nat \<Rightarrow> nat \<Rightarrow> nat \<Rightarrow> (nat \<rightharpoonup> nat) \<times> block \<Rightarrow> (nat \<rightharpoonup> nat) \<times> block" where
  "outer_step a b blo bhi i st =
     (case st of (j2len, best) \<Rightarrow> inner_loop j2len i blo bhi (b2j b (a ! i)) (Map.empty, best))"

definition main_loop :: "tokens \<Rightarrow> tokens \<Rightarrow> nat \<Rightarrow> nat \<Rightarrow> nat \<Rightarrow> nat \<Rightarrow> (nat \<rightharpoonup> nat) \<times> block" where
  "main_loop a b alo ahi blo bhi = fold (outer_step a b blo bhi) [alo..<ahi] (Map.empty, (alo, blo, 0))"

text \<open>
  The four \<^verbatim>\<open>while\<close> loops that extend the best match at its two ends; \<open>ok\<close> is the test
  on \<^verbatim>\<open>isbjunk\<close> that the loop makes (its negation in the first two loops).
\<close>

function extend_back :: "(string \<Rightarrow> bool) \<Rightarrow> tokens \<Rightarrow> tokens \<Rightarrow> nat \<Rightarrow> nat \<Rightarrow> block \<Rightarrow> block" where
  "extend_back ok a b alo blo (besti, bestj, bestsize) =
     (if alo < besti \<and> blo < bestj \<and> ok (b ! (bestj - 1)) \<and> a ! (besti - 1) = b ! (bestj - 1)
      then extend_back ok a b alo blo (besti - 1, bestj - 1, bestsize + 1)
      else (besti, bestj, bestsize))"
  by pat_completeness auto
termination
  by (relation "measure (\<lambda>(ok, a, b, alo, blo, besti, bestj, bestsize). besti)") auto

function extend_forward :: "(string \<Rightarrow> bool) \<Rightarrow> tokens \<Rightarrow> tokens \<Rightarrow> nat \<Rightarrow> nat \<Rightarrow> block \<Rightarrow> block" where
  "extend_forward ok a b ahi bhi (besti, bestj, bestsize) =
     (if besti + bestsize < ahi \<and> bestj + bestsize < bhi \<and> ok (b ! (bestj + bestsize)) \<and>
         a ! (besti + bestsize) = b ! (bestj + bestsize)
      then extend_forward ok a b ahi bhi (besti, bestj, bestsize + 1)
      else (besti, bestj, bestsize))"
  by pat_completeness auto
termination
  by (relation "measure (\<lambda>(ok, a, b, ahi, bhi, besti, bestj, bestsize). ahi - (besti + bestsize))") auto

declare extend_back.simps [simp del] extend_forward.simps [simp del]

definition find_longest_match :: "tokens \<Rightarrow> tokens \<Rightarrow> nat \<Rightarrow> nat \<Rightarrow> nat \<Rightarrow> nat \<Rightarrow> block" where
  "find_longest_match a b alo ahi blo bhi =
     (let best0 = snd (main_loop a b alo ahi blo bhi);
          best1 = extend_back (\<lambda>x. \<not> isbjunk x) a b alo blo best0;
          best2 = extend_forward (\<lambda>x. \<not> isbjunk x) a b ahi bhi best1;
          best3 = extend_back isbjunk a b alo blo best2;
          best4 = extend_forward isbjunk a b ahi bhi best3
      in best4)"

subsection \<open>The match lies in its window\<close>

text \<open>
  The block loop of \<^verbatim>\<open>get_matching_blocks\<close> terminates because a match found in a window
  lies inside that window. The lemmas of this subsection prove it for
  \<^const>\<open>find_longest_match\<close>, so that the loop can be defined; \<open>good\<close> is the statement
  and \<open>row_bound\<close> its loop invariant on the dictionary of lengths.
\<close>

definition good :: "nat \<Rightarrow> nat \<Rightarrow> nat \<Rightarrow> nat \<Rightarrow> block \<Rightarrow> bool" where
  "good alo ahi blo bhi m \<longleftrightarrow>
     (case m of (i, j, k) \<Rightarrow>
        alo \<le> i \<and> blo \<le> j \<and> ((i + k \<le> ahi \<and> j + k \<le> bhi) \<or> (i = alo \<and> j = blo \<and> k = 0)))"

definition row_bound :: "nat \<Rightarrow> nat \<Rightarrow> nat \<Rightarrow> (nat \<rightharpoonup> nat) \<Rightarrow> bool" where
  "row_bound alo blo i d \<longleftrightarrow> (\<forall>j. get0 d j \<le> i - alo \<and> get0 d j \<le> j + 1 - blo)"

lemma get0_empty [simp]: "get0 Map.empty j = 0"
  by (simp add: get0_def)

lemma get0_upd [simp]: "get0 (d(j \<mapsto> k)) j' = (if j' = j then k else get0 d j')"
  by (simp add: get0_def)

lemma inner_loop_good:
  assumes prev: "row_bound alo blo i j2len" and i: "alo \<le> i" "i < ahi"
  shows "row_bound alo blo (Suc i) new \<Longrightarrow> good alo ahi blo bhi best \<Longrightarrow>
         row_bound alo blo (Suc i) (fst (inner_loop j2len i blo bhi js (new, best))) \<and>
         good alo ahi blo bhi (snd (inner_loop j2len i blo bhi js (new, best)))"
proof (induction js arbitrary: new best)
  case Nil
  then show ?case by simp
next
  case (Cons j js)
  obtain besti bestj bestsize where best: "best = (besti, bestj, bestsize)" by (cases best)
  show ?case
  proof (cases "j < blo")
    case True
    then have e: "inner_loop j2len i blo bhi (j # js) (new, best) = inner_loop j2len i blo bhi js (new, best)"
      unfolding best by simp
    show ?thesis unfolding e using Cons.prems by (rule Cons.IH)
  next
    case lo: False
    show ?thesis
    proof (cases "bhi \<le> j")
      case True
      with lo have e: "inner_loop j2len i blo bhi (j # js) (new, best) = (new, best)"
        unfolding best by simp
      show ?thesis unfolding e using Cons.prems by simp
    next
      case hi: False
      define k where "k = (if j = 0 then 0 else get0 j2len (j - 1)) + 1"
      from prev have p: "get0 j2len (j - 1) \<le> i - alo" "get0 j2len (j - 1) \<le> (j - 1) + 1 - blo"
        unfolding row_bound_def by simp_all
      from p i lo have k1: "k \<le> Suc i - alo" unfolding k_def by auto
      from p lo have k2: "k \<le> j + 1 - blo" unfolding k_def by auto
      have kpos: "0 < k" unfolding k_def by simp
      have new': "row_bound alo blo (Suc i) (new(j \<mapsto> k))"
        using Cons.prems(1) k1 k2 unfolding row_bound_def by simp
      have best': "good alo ahi blo bhi (if bestsize < k then (i + 1 - k, j + 1 - k, k) else (besti, bestj, bestsize))"
      proof (cases "bestsize < k")
        case True
        from k1 k2 i lo hi kpos have "alo \<le> i + 1 - k \<and> blo \<le> j + 1 - k \<and> i + 1 - k + k \<le> ahi \<and> j + 1 - k + k \<le> bhi"
          by auto
        with True show ?thesis by (simp add: good_def)
      next
        case False
        with Cons.prems(2) best show ?thesis by simp
      qed
      have e: "inner_loop j2len i blo bhi (j # js) (new, best) =
            inner_loop j2len i blo bhi js
              (new(j \<mapsto> k), if bestsize < k then (i + 1 - k, j + 1 - k, k) else (besti, bestj, bestsize))"
        unfolding best k_def using lo hi by (simp only: inner_loop.simps if_False Let_def)
      show ?thesis unfolding e using new' best' by (rule Cons.IH)
    qed
  qed
qed

lemma main_loop_good:
  "n \<le> ahi \<Longrightarrow>
   row_bound alo blo n (fst (fold (outer_step a b blo bhi) [alo..<n] (Map.empty, (alo, blo, 0)))) \<and>
   good alo ahi blo bhi (snd (fold (outer_step a b blo bhi) [alo..<n] (Map.empty, (alo, blo, 0))))"
proof (induction n)
  case 0
  show ?case by (simp add: row_bound_def good_def)
next
  case (Suc m)
  show ?case
  proof (cases "alo \<le> m")
    case False
    then show ?thesis by (simp add: row_bound_def good_def)
  next
    case True
    define st where "st = fold (outer_step a b blo bhi) [alo..<m] (Map.empty, (alo, blo, 0))"
    from Suc have ih: "row_bound alo blo m (fst st)" "good alo ahi blo bhi (snd st)"
      unfolding st_def by simp_all
    from True have "fold (outer_step a b blo bhi) [alo..<Suc m] (Map.empty, (alo, blo, 0))
        = outer_step a b blo bhi m st"
      unfolding st_def by simp
    also have "\<dots> = inner_loop (fst st) m blo bhi (b2j b (a ! m)) (Map.empty, snd st)"
      by (simp add: outer_step_def split_def)
    finally have e: "fold (outer_step a b blo bhi) [alo..<Suc m] (Map.empty, (alo, blo, 0))
        = inner_loop (fst st) m blo bhi (b2j b (a ! m)) (Map.empty, snd st)" .
    have emp: "row_bound alo blo (Suc m) Map.empty" by (simp add: row_bound_def)
    from Suc.prems have lt: "m < ahi" by simp
    show ?thesis unfolding e using ih(1) True lt emp ih(2) by (rule inner_loop_good)
  qed
qed

lemma extend_back_good:
  "good alo ahi blo bhi m \<Longrightarrow> good alo ahi blo bhi (extend_back ok a b alo blo m)"
proof (induction ok a b alo blo m rule: extend_back.induct)
  case (1 ok a b alo blo besti bestj bestsize)
  show ?case
  proof (cases "alo < besti \<and> blo < bestj \<and> ok (b ! (bestj - 1)) \<and> a ! (besti - 1) = b ! (bestj - 1)")
    case True
    with "1.prems" have "good alo ahi blo bhi (besti - 1, bestj - 1, bestsize + 1)"
      by (auto simp: good_def)
    from "1.IH" [OF True this] have "good alo ahi blo bhi (extend_back ok a b alo blo (besti - 1, bestj - 1, bestsize + 1))" .
    moreover have "extend_back ok a b alo blo (besti, bestj, bestsize)
        = extend_back ok a b alo blo (besti - 1, bestj - 1, bestsize + 1)"
      by (subst extend_back.simps) (simp only: True simp_thms if_True)
    ultimately show ?thesis by simp
  next
    case False
    have "extend_back ok a b alo blo (besti, bestj, bestsize) = (besti, bestj, bestsize)"
      by (subst extend_back.simps) (simp only: False simp_thms if_False)
    with "1.prems" show ?thesis by simp
  qed
qed

lemma extend_forward_good:
  "good alo ahi blo bhi m \<Longrightarrow> good alo ahi blo bhi (extend_forward ok a b ahi bhi m)"
proof (induction ok a b ahi bhi m rule: extend_forward.induct)
  case (1 ok a b ahi bhi besti bestj bestsize)
  show ?case
  proof (cases "besti + bestsize < ahi \<and> bestj + bestsize < bhi \<and> ok (b ! (bestj + bestsize)) \<and>
         a ! (besti + bestsize) = b ! (bestj + bestsize)")
    case True
    with "1.prems" have "good alo ahi blo bhi (besti, bestj, bestsize + 1)"
      by (auto simp: good_def)
    from "1.IH" [OF True this] have "good alo ahi blo bhi (extend_forward ok a b ahi bhi (besti, bestj, bestsize + 1))" .
    moreover have "extend_forward ok a b ahi bhi (besti, bestj, bestsize)
        = extend_forward ok a b ahi bhi (besti, bestj, bestsize + 1)"
      by (subst extend_forward.simps) (simp only: True simp_thms if_True)
    ultimately show ?thesis by simp
  next
    case False
    have "extend_forward ok a b ahi bhi (besti, bestj, bestsize) = (besti, bestj, bestsize)"
      by (subst extend_forward.simps) (simp only: False simp_thms if_False)
    with "1.prems" show ?thesis by simp
  qed
qed

lemma find_longest_match_good: "good alo ahi blo bhi (find_longest_match a b alo ahi blo bhi)"
proof -
  have "good alo ahi blo bhi (snd (main_loop a b alo ahi blo bhi))"
    unfolding main_loop_def using main_loop_good [of ahi ahi] by simp
  then show ?thesis
    unfolding find_longest_match_def Let_def
    by (intro extend_forward_good extend_back_good)
qed

subsection \<open>get_matching_blocks and ratio\<close>

text \<open>The termination measure of the block loop.\<close>

definition weight :: "(nat \<times> nat \<times> nat \<times> nat) list \<Rightarrow> nat" where
  "weight queue = sum_list (map (\<lambda>(alo, ahi, blo, bhi). 2 * (ahi - alo) + 1) queue)"

text \<open>
  The \<^verbatim>\<open>while queue\<close> loop of \<^verbatim>\<open>get_matching_blocks\<close>: \<^verbatim>\<open>queue.pop()\<close> takes the last
  window, a match of positive size is recorded and the windows on its two sides are
  appended.
\<close>

function blocks_loop :: "tokens \<Rightarrow> tokens \<Rightarrow> (nat \<times> nat \<times> nat \<times> nat) list \<Rightarrow> block list \<Rightarrow> block list" where
  "blocks_loop a b queue matching_blocks =
     (if queue = [] then matching_blocks
      else (case last queue of (alo, ahi, blo, bhi) \<Rightarrow>
              (case find_longest_match a b alo ahi blo bhi of (i, j, k) \<Rightarrow>
                 if k \<noteq> 0 then
                   blocks_loop a b
                     (butlast queue
                        @ (if alo < i \<and> blo < j then [(alo, i, blo, j)] else [])
                        @ (if i + k < ahi \<and> j + k < bhi then [(i + k, ahi, j + k, bhi)] else []))
                     (matching_blocks @ [(i, j, k)])
                 else blocks_loop a b (butlast queue) matching_blocks)))"
  by pat_completeness auto
termination
proof (relation "measure (\<lambda>(a, b, queue, mb). weight queue)", goal_cases)
  case 1
  show ?case by simp
next
  case (2 a b queue matching_blocks alo y ahi ya blo bhi i yc j k)
  from 2(2,3,4) have l: "last queue = (alo, ahi, blo, bhi)" by (metis)
  from 2(5,6) have m: "find_longest_match a b alo ahi blo bhi = (i, j, k)" by (metis)
  from find_longest_match_good [of alo ahi blo bhi a b] m 2(7)
  have g: "alo \<le> i" "i + k \<le> ahi" by (simp_all add: good_def)
  from 2(1) l have q: "queue = butlast queue @ [(alo, ahi, blo, bhi)]"
    by (metis append_butlast_last_id)
  have w: "weight queue = weight (butlast queue) + (2 * (ahi - alo) + 1)"
    by (subst q) (simp add: weight_def)
  have "weight (butlast queue
                        @ (if alo < i \<and> blo < j then [(alo, i, blo, j)] else [])
                        @ (if i + k < ahi \<and> j + k < bhi then [(i + k, ahi, j + k, bhi)] else []))
          \<le> weight (butlast queue) + (2 * (i - alo) + 1) + (2 * (ahi - (i + k)) + 1)"
    by (simp add: weight_def)
  also have "\<dots> < weight queue" unfolding w using g 2(7) by simp
  finally show ?case by simp
next
  case (3 a b queue matching_blocks alo y ahi ya blo bhi i yc j k)
  from 3(2,3,4) have l: "last queue = (alo, ahi, blo, bhi)" by (metis)
  from 3(1) l have q: "queue = butlast queue @ [(alo, ahi, blo, bhi)]"
    by (metis append_butlast_last_id)
  have w: "weight queue = weight (butlast queue) + (2 * (ahi - alo) + 1)"
    by (subst q) (simp add: weight_def)
  then show ?case by simp
qed

declare blocks_loop.simps [simp del]

text \<open>
  One round of the loop that merges adjacent blocks: the state is the block
  \<open>(i1, j1, k1)\<close> to compare against and the list \<^verbatim>\<open>non_adjacent\<close>.
\<close>

definition collapse_step :: "block \<times> block list \<Rightarrow> block \<Rightarrow> block \<times> block list" where
  "collapse_step st blk =
     (case st of ((i1, j1, k1), non_adjacent) \<Rightarrow>
        (case blk of (i2, j2, k2) \<Rightarrow>
           if i1 + k1 = i2 \<and> j1 + k1 = j2 then ((i1, j1, k1 + k2), non_adjacent)
           else ((i2, j2, k2), if k1 \<noteq> 0 then non_adjacent @ [(i1, j1, k1)] else non_adjacent)))"

text \<open>
  \<^verbatim>\<open>matching_blocks.sort()\<close> orders the triples lexicographically; the last block is the
  dummy \<open>(la, lb, 0)\<close>.
\<close>

definition get_matching_blocks :: "tokens \<Rightarrow> tokens \<Rightarrow> block list" where
  "get_matching_blocks a b =
     (let la = length a; lb = length b;
          matching_blocks = sort (blocks_loop a b [(0, la, 0, lb)] [])
      in (case fold (\<lambda>blk st. collapse_step st blk) matching_blocks ((0, 0, 0), []) of
            ((i1, j1, k1), non_adjacent) \<Rightarrow>
              (if k1 \<noteq> 0 then non_adjacent @ [(i1, j1, k1)] else non_adjacent) @ [(la, lb, 0)]))"

definition calculate_ratio :: "nat \<Rightarrow> nat \<Rightarrow> rat" where
  "calculate_ratio matches len = (if len \<noteq> 0 then 2 * of_nat matches / of_nat len else 1)"

text \<open>\<^verbatim>\<open>SequenceMatcher.ratio\<close>.\<close>

definition sequence_matcher_ratio :: "tokens \<Rightarrow> tokens \<Rightarrow> rat" where
  "sequence_matcher_ratio a b =
     (let matches = sum_list (map (\<lambda>(i, j, k). k) (get_matching_blocks a b))
      in calculate_ratio matches (length a + length b))"

subsection \<open>Predicates of the proofs\<close>

text \<open>All keys of all clusters, in the order of the dictionary.\<close>

definition members :: "clusters \<Rightarrow> string list" where
  "members cl = concat (map snd cl)"

text \<open>
  The invariant of the clustering loop after the keys \<open>u\<close> have been taken in: every
  key sits once in some cluster, a cluster starts with its representative,
  representatives and members keep the scan order, and a member scored below 90 with
  every earlier representative and, unless it is the representative, at least 90 with
  its own.
\<close>

definition cluster_inv :: "(string \<Rightarrow> string \<Rightarrow> nat) \<Rightarrow> string list \<Rightarrow> clusters \<Rightarrow> bool" where
  "cluster_inv tsr u cl \<longleftrightarrow>
     mset (members cl) = mset u \<and>
     (\<forall>i<length cl. \<exists>rest. snd (cl ! i) = fst (cl ! i) # rest) \<and>
     subseq (map fst cl) u \<and>
     (\<forall>i<length cl. subseq (snd (cl ! i)) u) \<and>
     (\<forall>i<length cl. \<forall>k\<in>set (snd (cl ! i)).
        (\<forall>j<i. tsr k (fst (cl ! j)) < 90) \<and> (k = fst (cl ! i) \<or> 90 \<le> tsr k (fst (cl ! i))))"









text \<open>
  For the proofs about the matcher: the total size of a list of blocks, the total length
  of the windows of a queue on either side, the length \<open>run xs i j\<close> of the longest run of
  equal, non-popular elements of \<open>xs\<close> that ends at the positions \<open>i\<close> and \<open>j\<close>, and the
  invariants of the two loops of \<^const>\<open>find_longest_match\<close> when a sequence is compared
  with itself.
\<close>

definition size_sum :: "block list \<Rightarrow> nat" where
  "size_sum blocks = sum_list (map (\<lambda>(i, j, k). k) blocks)"

definition span_a :: "(nat \<times> nat \<times> nat \<times> nat) list \<Rightarrow> nat" where
  "span_a queue = sum_list (map (\<lambda>(alo, ahi, blo, bhi). ahi - alo) queue)"

definition span_b :: "(nat \<times> nat \<times> nat \<times> nat) list \<Rightarrow> nat" where
  "span_b queue = sum_list (map (\<lambda>(alo, ahi, blo, bhi). bhi - blo) queue)"

primrec run :: "tokens \<Rightarrow> nat \<Rightarrow> nat \<Rightarrow> nat" where
  "run xs 0 j = (if j < length xs \<and> xs ! 0 = xs ! j \<and> \<not> popular xs (xs ! j) then 1 else 0)"
| "run xs (Suc i) j =
     (if j < length xs \<and> xs ! Suc i = xs ! j \<and> \<not> popular xs (xs ! j)
      then (case j of 0 \<Rightarrow> 1 | Suc j' \<Rightarrow> run xs i j' + 1) else 0)"

definition prev_row :: "tokens \<Rightarrow> nat \<Rightarrow> nat \<Rightarrow> nat" where
  "prev_row xs i j = (case i of 0 \<Rightarrow> 0 | Suc i' \<Rightarrow> run xs i' j)"

definition row_inv :: "tokens \<Rightarrow> nat \<Rightarrow> nat \<Rightarrow> (nat \<rightharpoonup> nat) \<times> block \<Rightarrow> bool" where
  "row_inv xs i t st \<longleftrightarrow>
     (case st of (new, bi, bj, bs) \<Rightarrow>
        (\<forall>j. get0 new j = (if j < t then run xs i j else 0)) \<and> bi = bj \<and>
        (\<forall>i' j'. i' < i \<or> (i' = i \<and> j' < t) \<longrightarrow> run xs i' j' \<le> bs))"

definition main_inv :: "tokens \<Rightarrow> nat \<Rightarrow> (nat \<rightharpoonup> nat) \<times> block \<Rightarrow> bool" where
  "main_inv xs m st \<longleftrightarrow>
     (case st of (d, bi, bj, bs) \<Rightarrow>
        (\<forall>j. get0 d j = prev_row xs m j) \<and> bi = bj \<and> (\<forall>i' j'. i' < m \<longrightarrow> run xs i' j' \<le> bs))"

section \<open>Properties\<close>

subsection \<open>The clustering loop\<close>


lemma unique_distinct: "distinct (unique xs)"
  by (simp add: unique_def)

lemma unique_set: "set (unique xs) = set xs"
  by (simp add: unique_def)

lemma join_first_None:
  "join_first tsr k cl = None \<Longrightarrow> j < length cl \<Longrightarrow> tsr k (fst (cl ! j)) < 90"
proof (induction cl arbitrary: j)
  case Nil
  then show ?case by simp
next
  case (Cons p cl)
  obtain rep lst where p: "p = (rep, lst)" by (cases p)
  from Cons.prems p have low: "tsr k rep < 90" and rest: "join_first tsr k cl = None"
    by (auto split: if_splits)
  show ?case
  proof (cases j)
    case 0
    with low p show ?thesis by simp
  next
    case (Suc j')
    with Cons.prems Cons.IH [OF rest, of j'] show ?thesis by simp
  qed
qed

lemma join_first_Some:
  "join_first tsr k cl = Some cl' \<Longrightarrow>
     \<exists>i < length cl. cl' = cl[i := (fst (cl ! i), snd (cl ! i) @ [k])]
        \<and> 90 \<le> tsr k (fst (cl ! i)) \<and> (\<forall>j < i. tsr k (fst (cl ! j)) < 90)"
proof (induction cl arbitrary: cl')
  case Nil
  then show ?case by simp
next
  case (Cons p cl)
  obtain rep lst where p: "p = (rep, lst)" by (cases p)
  show ?case
  proof (cases "90 \<le> tsr k rep")
    case True
    with Cons.prems p have "cl' = (rep, lst @ [k]) # cl" by simp
    with True p show ?thesis by (intro exI [of _ 0]) simp
  next
    case False
    with Cons.prems p obtain cl'' where
      rest: "join_first tsr k cl = Some cl''" and cl': "cl' = (rep, lst) # cl''"
      by auto
    from Cons.IH [OF rest] obtain i where i: "i < length cl"
      "cl'' = cl[i := (fst (cl ! i), snd (cl ! i) @ [k])]"
      "90 \<le> tsr k (fst (cl ! i))" "\<forall>j < i. tsr k (fst (cl ! j)) < 90"
      by blast
    have "\<forall>j < Suc i. tsr k (fst ((p # cl) ! j)) < 90"
    proof (intro allI impI)
      fix j assume "j < Suc i"
      then show "tsr k (fst ((p # cl) ! j)) < 90"
        using False p i(4) by (cases j) auto
    qed
    with i cl' p show ?thesis by (intro exI [of _ "Suc i"]) simp
  qed
qed

lemma members_update:
  "i < length cl \<Longrightarrow>
     mset (members (cl[i := (r, snd (cl ! i) @ [k])])) = add_mset k (mset (members cl))"
proof (induction cl arbitrary: i)
  case Nil
  then show ?case by simp
next
  case (Cons p cl)
  then show ?case by (cases i) (simp_all add: members_def)
qed

lemma dict_set_fresh: "k \<notin> fst ` set d \<Longrightarrow> dict_set k v d = d @ [(k, v)]"
  by (induction d) auto


lemma members_snoc: "members (cl @ [(k, l)]) = members cl @ l"
  by (simp add: members_def)

lemma nth_members: "i < length cl \<Longrightarrow> set (snd (cl ! i)) \<subseteq> set (members cl)"
  unfolding members_def by (induction cl arbitrary: i) (auto simp: nth_Cons split: nat.splits)

lemma cluster_inv_reps:
  assumes "cluster_inv tsr u cl"
  shows "fst ` set cl \<subseteq> set u"
proof
  fix r assume "r \<in> fst ` set cl"
  then obtain i where i: "i < length cl" "r = fst (cl ! i)"
    by (auto simp: in_set_conv_nth)
  from assms i(1) obtain rest where "snd (cl ! i) = fst (cl ! i) # rest"
    unfolding cluster_inv_def by blast
  with i have "r \<in> set (snd (cl ! i))" by simp
  with nth_members [OF i(1)] have "r \<in> set (members cl)" by blast
  moreover from assms have "set (members cl) = set u"
    unfolding cluster_inv_def by (metis set_mset_mset)
  ultimately show "r \<in> set u" by simp
qed

lemma cluster_inv_join:
  assumes inv: "cluster_inv tsr u cl" and fresh: "k \<notin> set u"
    and i0: "i0 < length cl" and hit: "90 \<le> tsr k (fst (cl ! i0))"
    and miss: "\<forall>j<i0. tsr k (fst (cl ! j)) < 90"
  shows "cluster_inv tsr (u @ [k]) (cl[i0 := (fst (cl ! i0), snd (cl ! i0) @ [k])])"
proof -
  let ?cl' = "cl[i0 := (fst (cl ! i0), snd (cl ! i0) @ [k])]"
  have len: "length ?cl' = length cl" by simp
  have fst_eq: "fst (?cl' ! i) = fst (cl ! i)" if "i < length cl" for i
    using that by (cases "i = i0") simp_all
  have snd_eq: "snd (?cl' ! i) = (if i = i0 then snd (cl ! i0) @ [k] else snd (cl ! i))"
    if "i < length cl" for i
    using that by simp
  have map_fst: "map fst ?cl' = map fst cl"
    by (rule nth_equalityI) (simp_all add: fst_eq)
  from inv have p1: "mset (members cl) = mset u"
    and p2: "\<forall>i<length cl. \<exists>rest. snd (cl ! i) = fst (cl ! i) # rest"
    and p3: "subseq (map fst cl) u"
    and p4: "\<forall>i<length cl. subseq (snd (cl ! i)) u"
    and p5: "\<forall>i<length cl. \<forall>k\<in>set (snd (cl ! i)).
        (\<forall>j<i. tsr k (fst (cl ! j)) < 90) \<and> (k = fst (cl ! i) \<or> 90 \<le> tsr k (fst (cl ! i)))"
    unfolding cluster_inv_def by blast+
  have q1: "mset (members ?cl') = mset (u @ [k])"
    using members_update [OF i0, of "fst (cl ! i0)" k] p1 by simp
  have q2: "\<forall>i<length ?cl'. \<exists>rest. snd (?cl' ! i) = fst (?cl' ! i) # rest"
  proof (intro allI impI)
    fix i assume "i < length ?cl'"
    then have i: "i < length cl" by simp
    from p2 i obtain rest where "snd (cl ! i) = fst (cl ! i) # rest" by blast
    then show "\<exists>rest. snd (?cl' ! i) = fst (?cl' ! i) # rest"
      using i by (cases "i = i0") simp_all
  qed
  have q3: "subseq (map fst ?cl') (u @ [k])"
    unfolding map_fst using p3 by (rule subseq_rev_drop_many)
  have q4: "\<forall>i<length ?cl'. subseq (snd (?cl' ! i)) (u @ [k])"
  proof (intro allI impI)
    fix i assume "i < length ?cl'"
    then have i: "i < length cl" by simp
    with p4 have s: "subseq (snd (cl ! i)) u" by blast
    show "subseq (snd (?cl' ! i)) (u @ [k])"
    proof (cases "i = i0")
      case True
      with s i show ?thesis by (simp add: subseq_append)
    next
      case False
      with s i show ?thesis by (simp add: subseq_rev_drop_many)
    qed
  qed
  have q5: "\<forall>i<length ?cl'. \<forall>x\<in>set (snd (?cl' ! i)).
        (\<forall>j<i. tsr x (fst (?cl' ! j)) < 90) \<and> (x = fst (?cl' ! i) \<or> 90 \<le> tsr x (fst (?cl' ! i)))"
  proof (intro allI impI ballI)
    fix i x assume "i < length ?cl'" and x: "x \<in> set (snd (?cl' ! i))"
    then have i: "i < length cl" by simp
    have old: "(\<forall>j<i. tsr x (fst (cl ! j)) < 90) \<and> (x = fst (cl ! i) \<or> 90 \<le> tsr x (fst (cl ! i)))"
      if "x \<in> set (snd (cl ! i))"
      using p5 i that by blast
    have new: "(\<forall>j<i. tsr x (fst (cl ! j)) < 90) \<and> (x = fst (cl ! i) \<or> 90 \<le> tsr x (fst (cl ! i)))"
    proof (cases "x \<in> set (snd (cl ! i))")
      case True
      then show ?thesis by (rule old)
    next
      case False
      with x i have "i = i0" and "x = k" by (auto simp: snd_eq split: if_splits)
      with hit miss show ?thesis by simp
    qed
    show "(\<forall>j<i. tsr x (fst (?cl' ! j)) < 90) \<and> (x = fst (?cl' ! i) \<or> 90 \<le> tsr x (fst (?cl' ! i)))"
      using new i by (simp add: fst_eq)
  qed
  show ?thesis
    unfolding cluster_inv_def using q1 q2 q3 q4 q5 by blast
qed

lemma cluster_inv_new:
  assumes inv: "cluster_inv tsr u cl" and fresh: "k \<notin> set u"
    and miss: "\<forall>j<length cl. tsr k (fst (cl ! j)) < 90"
  shows "cluster_inv tsr (u @ [k]) (cl @ [(k, [k])])"
proof -
  let ?cl' = "cl @ [(k, [k])]"
  from inv have p1: "mset (members cl) = mset u"
    and p2: "\<forall>i<length cl. \<exists>rest. snd (cl ! i) = fst (cl ! i) # rest"
    and p3: "subseq (map fst cl) u"
    and p4: "\<forall>i<length cl. subseq (snd (cl ! i)) u"
    and p5: "\<forall>i<length cl. \<forall>k\<in>set (snd (cl ! i)).
        (\<forall>j<i. tsr k (fst (cl ! j)) < 90) \<and> (k = fst (cl ! i) \<or> 90 \<le> tsr k (fst (cl ! i)))"
    unfolding cluster_inv_def by blast+
  have old: "?cl' ! i = cl ! i" if "i < length cl" for i
    using that by (simp add: nth_append)
  have last: "?cl' ! length cl = (k, [k])" by simp
  have cases: "i < length cl \<or> i = length cl" if "i < length ?cl'" for i
    using that by auto
  have q1: "mset (members ?cl') = mset (u @ [k])"
    using p1 by (simp add: members_snoc)
  have q2: "\<forall>i<length ?cl'. \<exists>rest. snd (?cl' ! i) = fst (?cl' ! i) # rest"
  proof (intro allI impI)
    fix i assume "i < length ?cl'"
    from cases [OF this] show "\<exists>rest. snd (?cl' ! i) = fst (?cl' ! i) # rest"
      using p2 old last by auto
  qed
  have q3: "subseq (map fst ?cl') (u @ [k])"
    using p3 by (simp add: subseq_append)
  have q4: "\<forall>i<length ?cl'. subseq (snd (?cl' ! i)) (u @ [k])"
  proof (intro allI impI)
    fix i assume "i < length ?cl'"
    from cases [OF this] show "subseq (snd (?cl' ! i)) (u @ [k])"
    proof
      assume i: "i < length cl"
      with p4 have "subseq (snd (cl ! i)) u" by blast
      then show ?thesis using i by (simp add: old subseq_rev_drop_many)
    next
      assume "i = length cl"
      then show ?thesis by (simp add: subseq_drop_many)
    qed
  qed
  have q5: "\<forall>i<length ?cl'. \<forall>x\<in>set (snd (?cl' ! i)).
        (\<forall>j<i. tsr x (fst (?cl' ! j)) < 90) \<and> (x = fst (?cl' ! i) \<or> 90 \<le> tsr x (fst (?cl' ! i)))"
  proof (intro allI impI ballI)
    fix i x assume "i < length ?cl'" and x: "x \<in> set (snd (?cl' ! i))"
    from cases [OF this(1)]
    show "(\<forall>j<i. tsr x (fst (?cl' ! j)) < 90) \<and> (x = fst (?cl' ! i) \<or> 90 \<le> tsr x (fst (?cl' ! i)))"
    proof
      assume i: "i < length cl"
      with x have "x \<in> set (snd (cl ! i))" by (simp add: old)
      with p5 i have "(\<forall>j<i. tsr x (fst (cl ! j)) < 90) \<and> (x = fst (cl ! i) \<or> 90 \<le> tsr x (fst (cl ! i)))"
        by blast
      then show ?thesis using i by (simp add: old)
    next
      assume i: "i = length cl"
      with x have "x = k" by simp
      with miss i show ?thesis by (simp add: old)
    qed
  qed
  show ?thesis
    unfolding cluster_inv_def using q1 q2 q3 q4 q5 by blast
qed

lemma cluster_inv_step:
  assumes inv: "cluster_inv tsr u cl" and fresh: "k \<notin> set u" and ne: "k \<noteq> []"
  shows "cluster_inv tsr (u @ [k]) (cluster_step tsr cl k)"
proof (cases "join_first tsr k cl")
  case None
  from cluster_inv_reps [OF inv] fresh have "k \<notin> fst ` set cl" by blast
  then have "dict_set k [k] cl = cl @ [(k, [k])]" by (rule dict_set_fresh)
  with None ne have "cluster_step tsr cl k = cl @ [(k, [k])]"
    by (simp add: cluster_step_def)
  moreover have "\<forall>j<length cl. tsr k (fst (cl ! j)) < 90"
    using join_first_None [OF None] by blast
  ultimately show ?thesis using cluster_inv_new [OF inv fresh] by simp
next
  case (Some cl')
  from join_first_Some [OF Some] obtain i where i: "i < length cl"
    "cl' = cl[i := (fst (cl ! i), snd (cl ! i) @ [k])]"
    "90 \<le> tsr k (fst (cl ! i))" "\<forall>j < i. tsr k (fst (cl ! j)) < 90"
    by blast
  from Some ne have "cluster_step tsr cl k = cl'" by (simp add: cluster_step_def)
  with i cluster_inv_join [OF inv fresh i(1) i(3) i(4)] show ?thesis by simp
qed

lemma cluster_inv_foldl:
  "distinct xs \<Longrightarrow> cluster_inv tsr (filter (\<lambda>k. k \<noteq> []) xs) (foldl (cluster_step tsr) [] xs)"
proof (induction xs rule: rev_induct)
  case Nil
  show ?case by (simp add: cluster_inv_def members_def)
next
  case (snoc k xs)
  then have inv: "cluster_inv tsr (filter (\<lambda>k. k \<noteq> []) xs) (foldl (cluster_step tsr) [] xs)"
    and fresh: "k \<notin> set xs" by simp_all
  show ?case
  proof (cases "k = []")
    case True
    have "cluster_step tsr cl [] = cl" for cl by (simp add: cluster_step_def)
    with inv True show ?thesis by simp
  next
    case False
    from fresh have "k \<notin> set (filter (\<lambda>k. k \<noteq> []) xs)" by simp
    from cluster_inv_step [OF inv this False] False show ?thesis by simp
  qed
qed

lemma build_clusters_inv:
  "cluster_inv tsr (filter (\<lambda>k. k \<noteq> []) (unique ks)) (build_clusters tsr ks)"
  unfolding build_clusters_def by (rule cluster_inv_foldl) (rule unique_distinct)

lemma members_index_unique:
  "distinct (members cl) \<Longrightarrow> i < length cl \<Longrightarrow> j < length cl \<Longrightarrow>
     k \<in> set (snd (cl ! i)) \<Longrightarrow> k \<in> set (snd (cl ! j)) \<Longrightarrow> i = j"
proof (induction cl arbitrary: i j)
  case Nil
  then show ?case by simp
next
  case (Cons p cl)
  from Cons.prems(1) have d: "distinct (members cl)"
    and disj: "set (snd p) \<inter> set (members cl) = {}"
    by (simp_all add: members_def)
  show ?case
  proof (cases i)
    case i0: 0
    show ?thesis
    proof (cases j)
      case 0
      with i0 show ?thesis by simp
    next
      case (Suc j')
      with Cons.prems have "j' < length cl" "k \<in> set (snd (cl ! j'))" by simp_all
      with nth_members have "k \<in> set (members cl)" by blast
      moreover from i0 Cons.prems have "k \<in> set (snd p)" by simp
      ultimately show ?thesis using disj by blast
    qed
  next
    case iS: (Suc i')
    show ?thesis
    proof (cases j)
      case 0
      from iS Cons.prems have "i' < length cl" "k \<in> set (snd (cl ! i'))" by simp_all
      with nth_members have "k \<in> set (members cl)" by blast
      moreover from 0 Cons.prems have "k \<in> set (snd p)" by simp
      ultimately show ?thesis using disj by blast
    next
      case (Suc j')
      with iS Cons.prems Cons.IH [OF d, of i' j'] show ?thesis by simp
    qed
  qed
qed

lemma members_index_exists:
  "k \<in> set (members cl) \<Longrightarrow> \<exists>i<length cl. k \<in> set (snd (cl ! i))"
  unfolding members_def by (auto simp: in_set_conv_nth) (metis nth_mem snd_conv)

lemma combined_key_nonempty: "combined_key r \<noteq> []"
  by (simp add: combined_key_def)

lemma build_reference_combined:
  "map combined (build_reference tsr raws) = map combined_key raws"
  by (simp add: build_reference_def annotate_def Let_def comp_def split_def)

text \<open>
  Claim C3. The greedy clustering puts every distinct non-empty combined key into exactly
  one cluster: the keys of all clusters together are the distinct non-empty keys, each
  once, and none of them is empty. Representatives and members keep the order of first
  occurrence, every cluster starts with its representative, and a member of the cluster
  at position \<open>i\<close> scored below 90 with the representatives of all earlier clusters and
  (unless it is the representative, which started the cluster) at least 90 with its own:
  it joined the first cluster that matched, not the best one. No row of the reference
  table has an empty combined key.
\<close>

theorem clustering_partitions_keys:
  "let cl = build_clusters tsr ks; u = filter (\<lambda>k. k \<noteq> []) (unique ks) in
     mset (concat (map snd cl)) = mset u \<and> distinct u \<and> set u = set ks - {[]} \<and>
     (\<forall>k\<in>set ks. k \<noteq> [] \<longrightarrow> (\<exists>!i. i < length cl \<and> k \<in> set (snd (cl ! i)))) \<and>
     [] \<notin> set (concat (map snd cl)) \<and>
     subseq (map fst cl) u \<and>
     (\<forall>i<length cl.
        subseq (snd (cl ! i)) u \<and> (\<exists>rest. snd (cl ! i) = fst (cl ! i) # rest) \<and>
        (\<forall>k\<in>set (snd (cl ! i)).
           (\<forall>j<i. tsr k (fst (cl ! j)) < 90) \<and> (k = fst (cl ! i) \<or> 90 \<le> tsr k (fst (cl ! i))))) \<and>
     list_all (\<lambda>row. combined row \<noteq> []) (build_reference tsr raws)"
proof -
  define cl where "cl = build_clusters tsr ks"
  define u where "u = filter (\<lambda>k. k \<noteq> []) (unique ks)"
  have inv: "cluster_inv tsr u cl"
    unfolding cl_def u_def by (rule build_clusters_inv)
  then have m: "mset (members cl) = mset u"
    and p2: "\<forall>i<length cl. \<exists>rest. snd (cl ! i) = fst (cl ! i) # rest"
    and p3: "subseq (map fst cl) u"
    and p4: "\<forall>i<length cl. subseq (snd (cl ! i)) u"
    and p5: "\<forall>i<length cl. \<forall>k\<in>set (snd (cl ! i)).
        (\<forall>j<i. tsr k (fst (cl ! j)) < 90) \<and> (k = fst (cl ! i) \<or> 90 \<le> tsr k (fst (cl ! i)))"
    unfolding cluster_inv_def by blast+
  have du: "distinct u" unfolding u_def by (simp add: unique_distinct)
  have su: "set u = set ks - {[]}" unfolding u_def by (auto simp: unique_set)
  from m have sm: "set (members cl) = set u" by (metis set_mset_mset)
  from m du have dm: "distinct (members cl)" by (metis mset_eq_imp_distinct_iff)
  have ex1: "\<forall>k\<in>set ks. k \<noteq> [] \<longrightarrow> (\<exists>!i. i < length cl \<and> k \<in> set (snd (cl ! i)))"
  proof (intro ballI impI)
    fix k assume "k \<in> set ks" "k \<noteq> []"
    with su sm have "k \<in> set (members cl)" by simp
    from members_index_exists [OF this] obtain i where
      i: "i < length cl" "k \<in> set (snd (cl ! i))" by blast
    show "\<exists>!i. i < length cl \<and> k \<in> set (snd (cl ! i))"
    proof (rule ex1I [of _ i])
      show "i < length cl \<and> k \<in> set (snd (cl ! i))" using i by simp
    next
      fix j assume "j < length cl \<and> k \<in> set (snd (cl ! j))"
      with members_index_unique [OF dm _ i(1) _ i(2), of j] show "j = i" by simp
    qed
  qed
  from sm su have noempty: "[] \<notin> set (members cl)" by simp
  have ref: "list_all (\<lambda>row. combined row \<noteq> []) (build_reference tsr raws)"
  proof -
    have "list_all (\<lambda>k. k \<noteq> []) (map combined (build_reference tsr raws))"
      unfolding build_reference_combined by (simp add: list_all_iff combined_key_nonempty)
    then show ?thesis by (simp add: list_all_iff)
  qed
  have per: "\<forall>i<length cl.
        subseq (snd (cl ! i)) u \<and> (\<exists>rest. snd (cl ! i) = fst (cl ! i) # rest) \<and>
        (\<forall>k\<in>set (snd (cl ! i)).
           (\<forall>j<i. tsr k (fst (cl ! j)) < 90) \<and> (k = fst (cl ! i) \<or> 90 \<le> tsr k (fst (cl ! i))))"
  proof (intro allI impI conjI)
    fix i assume i: "i < length cl"
    from p4 i show "subseq (snd (cl ! i)) u" by simp
    from p2 i show "\<exists>rest. snd (cl ! i) = fst (cl ! i) # rest" by simp
    from p5 i show "\<forall>k\<in>set (snd (cl ! i)).
           (\<forall>j<i. tsr k (fst (cl ! j)) < 90) \<and> (k = fst (cl ! i) \<or> 90 \<le> tsr k (fst (cl ! i)))"
      by simp
  qed
  note m' = m [unfolded members_def] and noempty' = noempty [unfolded members_def]
  have "mset (concat (map snd cl)) = mset u \<and> distinct u \<and> set u = set ks - {[]} \<and>
     (\<forall>k\<in>set ks. k \<noteq> [] \<longrightarrow> (\<exists>!i. i < length cl \<and> k \<in> set (snd (cl ! i)))) \<and>
     [] \<notin> set (concat (map snd cl)) \<and>
     subseq (map fst cl) u \<and>
     (\<forall>i<length cl.
        subseq (snd (cl ! i)) u \<and> (\<exists>rest. snd (cl ! i) = fst (cl ! i) # rest) \<and>
        (\<forall>k\<in>set (snd (cl ! i)).
           (\<forall>j<i. tsr k (fst (cl ! j)) < 90) \<and> (k = fst (cl ! i) \<or> 90 \<le> tsr k (fst (cl ! i))))) \<and>
     list_all (\<lambda>row. combined row \<noteq> []) (build_reference tsr raws)"
    by (intro conjI m' du su ex1 noempty' p3 per ref)
  then show ?thesis
    unfolding cl_def u_def Let_def .
qed

theorem clustering_partitions_keys_witness:
  "build_clusters (\<lambda>a b. if take 1 a = take 1 b then 95 else 0) [''a1'', ''b1'', ''a2'', '''', ''a1'']
     = [(''a1'', [''a1'', ''a2'']), (''b1'', [''b1''])] \<and>
   ''a2'' \<in> set [''a1'', ''b1'', ''a2'', '''', ''a1''] \<and> ''a2'' \<noteq> [] \<and>
   (\<exists>!i. i < length [(''a1'', [''a1'', ''a2'']), (''b1'', [''b1''])] \<and>
      ''a2'' \<in> set (snd ([(''a1'', [''a1'', ''a2'']), (''b1'', [''b1''])] ! i))) \<and>
   mset (concat (map snd [(''a1'', [''a1'', ''a2'']), (''b1'', [''b1''])])) = mset [''a1'', ''b1'', ''a2'']"
proof -
  let ?f = "\<lambda>a b :: string. if take 1 a = take 1 b then 95 else (0::nat)"
  let ?ks = "[''a1'', ''b1'', ''a2'', '''', ''a1'']"
  let ?cl = "[(''a1'', [''a1'', ''a2'']), (''b1'', [''b1''])]"
  have ev: "build_clusters ?f ?ks = ?cl"
    by code_simp
  have u: "filter (\<lambda>k. k \<noteq> []) (unique ?ks) = [''a1'', ''b1'', ''a2'']"
    by code_simp
  have mem: "''a2'' \<in> set ?ks" and ne: "''a2'' \<noteq> []" by simp_all
  note th = clustering_partitions_keys [of ?f ?ks "[]", unfolded Let_def ev u]
  note c1 = th [THEN conjunct1]
  note c4 = th [THEN conjunct2, THEN conjunct2, THEN conjunct2, THEN conjunct1]
  from bspec [OF c4 mem] ne have "\<exists>!i. i < length ?cl \<and> ''a2'' \<in> set (snd (?cl ! i))"
    by (rule mp)
  with ev mem ne c1 show ?thesis by (intro conjI)
qed

subsection \<open>The key-to-representative map and the reference table\<close>

lemma pairs_fst:
  "map fst (concat (map (\<lambda>(r, lst). map (\<lambda>k. (k, r)) lst) cl)) = members cl"
  by (induction cl) (auto simp: members_def comp_def)

lemma pairs_mem:
  "i < length cl \<Longrightarrow> k \<in> set (snd (cl ! i)) \<Longrightarrow>
     (k, fst (cl ! i)) \<in> set (concat (map (\<lambda>(r, lst). map (\<lambda>k. (k, r)) lst) cl))"
proof -
  assume i: "i < length cl" and k: "k \<in> set (snd (cl ! i))"
  obtain r lst where p: "cl ! i = (r, lst)" by (cases "cl ! i")
  from i have "cl ! i \<in> set cl" by simp
  with p k show ?thesis by (auto intro!: bexI [of _ "(r, lst)"])
qed

lemma key_to_rep_member:
  assumes "distinct (members cl)" and "i < length cl" and "k \<in> set (snd (cl ! i))"
  shows "key_to_rep cl k = Some (fst (cl ! i))"
proof -
  let ?ps = "concat (map (\<lambda>(r, lst). map (\<lambda>k. (k, r)) lst) cl)"
  from assms(1) have "distinct (map fst (rev ?ps))"
    by (simp add: rev_map [symmetric] pairs_fst)
  moreover from pairs_mem [OF assms(2,3)] have "(k, fst (cl ! i)) \<in> set (rev ?ps)" by simp
  ultimately show ?thesis
    unfolding key_to_rep_def by (rule map_of_is_SomeI)
qed

lemma build_clusters_distinct: "distinct (members (build_clusters tsr ks))"
proof -
  from build_clusters_inv [of tsr ks]
  have "mset (members (build_clusters tsr ks)) = mset (filter (\<lambda>k. k \<noteq> []) (unique ks))"
    unfolding cluster_inv_def by blast
  moreover have "distinct (filter (\<lambda>k. k \<noteq> []) (unique ks))"
    by (simp add: unique_distinct)
  ultimately show ?thesis by (metis mset_eq_imp_distinct_iff)
qed

lemma build_clusters_member:
  assumes "k \<in> set ks" and "k \<noteq> []"
  shows "\<exists>i<length (build_clusters tsr ks). k \<in> set (snd (build_clusters tsr ks ! i))"
proof -
  from build_clusters_inv [of tsr ks]
  have "mset (members (build_clusters tsr ks)) = mset (filter (\<lambda>k. k \<noteq> []) (unique ks))"
    unfolding cluster_inv_def by blast
  then have "set (members (build_clusters tsr ks)) = set (filter (\<lambda>k. k \<noteq> []) (unique ks))"
    by (metis set_mset_mset)
  with assms have "k \<in> set (members (build_clusters tsr ks))"
    by (simp add: unique_set)
  then show ?thesis by (rule members_index_exists)
qed

text \<open>The row of the reference table that a loaded record becomes.\<close>

lemma build_reference_row:
  assumes "r \<in> set raws"
  shows "annotate (map (\<lambda>r. (r, key_to_rep (build_clusters tsr (map combined_key raws)) (combined_key r))) raws)
           (r, key_to_rep (build_clusters tsr (map combined_key raws)) (combined_key r))
         \<in> set (build_reference tsr raws)"
  using assms by (simp add: build_reference_def Let_def)


subsection \<open>The combined key\<close>

lemma normalize_nan: "normalize_text (Some (remove_marker (py_str None))) = ''NAN''"
  by code_simp

lemma normalize_empty: "normalize_text (Some (remove_marker (py_str (Some [])))) = []"
  "normalize_text (Some []) = []" "normalize_text None = []"
  by code_simp+

text \<open>
  Claim C10 against the code. The claim gives a record whose two text cells are both
  missing the combined key \<open>'' | ''\<close>: a missing text normalises to the empty text, as
  the guard of \<^verbatim>\<open>normalize_text\<close> on \<^verbatim>\<open>pd.isna\<close> (line 67) provides and as the Corrective
  Action column of line 74 gets it. Line 75 applies \<^verbatim>\<open>str(x)\<close> to the description
  before \<^verbatim>\<open>normalize_text\<close> is called, so the guard never sees the missing value: it
  prints as \<^verbatim>\<open>nan\<close>, and the record gets the key \<open>''NAN | ''\<close>.
\<close>

theorem missing_description_key:
  "combined_key \<lparr>description = None, corrective_action = None, total_hours = None\<rparr> = ''NAN | '' \<and>
   normalized_discrepancy \<lparr>description = None, corrective_action = None, total_hours = None\<rparr> = ''NAN'' \<and>
   normalized_corrective \<lparr>description = None, corrective_action = None, total_hours = None\<rparr> = [] \<and>
   normalize_text None = []"
  by (simp add: combined_key_def normalized_discrepancy_def normalized_corrective_def
      normalize_nan normalize_empty)

subsection \<open>Cluster statistics\<close>











subsection \<open>The three tiers\<close>


















subsection \<open>The decision classifier\<close>

text \<open>The four calls that the specification lists.\<close>

lemma classifier_examples:
  "conclusion_text (get_decision_conclusion 95 (Some 100)) = Fair_Quote_Below"
  "conclusion_text (get_decision_conclusion 104 (Some 100)) = In_Expected_Range"
  "conclusion_text (get_decision_conclusion 120 (Some 100)) = Higher_Than_Historic"
  "percent_display (get_decision_conclusion 120 (Some 100)) = ''+20.0%''"
  "percent_display (get_decision_conclusion 50 (Some 0)) = ''N/A (no historical data)''"
  by code_simp+

text \<open>
  For a fair value that is missing, zero or positive the classifier does what claim C2
  says: the branch on the quotient \<open>\<bar>supplier - fair\<bar> / fair\<close> is the branch on the
  absolute percent deviation.
\<close>

lemma classifier_positive_fair:
  "get_decision_conclusion s None =
     \<lparr>conclusion_text = No_Historical_Data, color = ''#b0202e'',
      percent_display = ''N/A (no historical data)'', diff_class = ''diff-neutral''\<rparr>"
  "get_decision_conclusion s (Some 0) =
     \<lparr>conclusion_text = No_Historical_Data, color = ''#b0202e'',
      percent_display = ''N/A (no historical data)'', diff_class = ''diff-neutral''\<rparr>"
  "0 < f \<Longrightarrow> conclusion_text (get_decision_conclusion s (Some f)) =
     (if s < f then Fair_Quote_Below
      else if \<bar>(s - f) / f * 100\<bar> \<le> 5 then In_Expected_Range
      else Higher_Than_Historic)"
  "f \<noteq> 0 \<Longrightarrow> percent_display (get_decision_conclusion s (Some f)) =
     (if 0 \<le> (s - f) / f * 100 then ''+'' else '''') @ format_1f ((s - f) / f * 100) @ ''%''"
proof -
  show "get_decision_conclusion s None =
     \<lparr>conclusion_text = No_Historical_Data, color = ''#b0202e'',
      percent_display = ''N/A (no historical data)'', diff_class = ''diff-neutral''\<rparr>"
    by (simp add: get_decision_conclusion_def)
  show "get_decision_conclusion s (Some 0) =
     \<lparr>conclusion_text = No_Historical_Data, color = ''#b0202e'',
      percent_display = ''N/A (no historical data)'', diff_class = ''diff-neutral''\<rparr>"
    by (simp add: get_decision_conclusion_def)
next
  assume f: "0 < f"
  define q where "q = \<bar>s - f\<bar> / f"
  have "\<bar>(s - f) / f * 100\<bar> = \<bar>s - f\<bar> / \<bar>f\<bar> * \<bar>100\<bar>"
    by (simp only: abs_mult abs_divide)
  also have "\<bar>f\<bar> = f" using f by (rule abs_of_pos)
  also have "\<bar>100 :: rat\<bar> = 100" by (rule abs_numeral)
  finally have e: "\<bar>(s - f) / f * 100\<bar> = q * 100" unfolding q_def .
  have "q * 100 \<le> 5 \<longleftrightarrow> q \<le> 5 / 100" by linarith
  then have "\<bar>(s - f) / f * 100\<bar> \<le> 5 \<longleftrightarrow> \<bar>s - f\<bar> / f \<le> 5 / 100"
    unfolding e unfolding q_def .
  then have iff: "\<bar>s - f\<bar> / f \<le> 5 / 100 \<longleftrightarrow> \<bar>(s - f) / f * 100\<bar> \<le> 5" by simp
  from f have nz: "f \<noteq> 0" by simp
  have ct: "conclusion_text (get_decision_conclusion s (Some f)) =
     (if s < f then Fair_Quote_Below
      else if \<bar>s - f\<bar> / f \<le> 5 / 100 then In_Expected_Range
      else Higher_Than_Historic)"
    unfolding get_decision_conclusion_def Let_def option.case using nz
    by (simp only: if_False if_distrib [of conclusion_text] decision.select_convs)
  show "conclusion_text (get_decision_conclusion s (Some f)) =
     (if s < f then Fair_Quote_Below
      else if \<bar>(s - f) / f * 100\<bar> \<le> 5 then In_Expected_Range
      else Higher_Than_Historic)"
    unfolding ct iff ..
next
  assume "f \<noteq> 0"
  then show "percent_display (get_decision_conclusion s (Some f)) =
     (if 0 \<le> (s - f) / f * 100 then ''+'' else '''') @ format_1f ((s - f) / f * 100) @ ''%''"
    by (simp add: get_decision_conclusion_def Let_def)
qed

text \<open>
  Claim C2 against the code. The claim ranges over every fair value. For a negative
  one the two tests part: with supplier hours 50 and fair hours -100 the deviation is
  -150 percent, more than 5 in absolute value, so the claim asks for the needs-review
  recommendation; the source tests \<^verbatim>\<open>abs(supplier - fair) / fair <= 0.05\<close>, a negative
  quotient, and answers that the quote is in the expected range, next to a display of
  \<open>-150.0%\<close>.
\<close>

theorem negative_fair_in_expected_range:
  "get_decision_conclusion 50 (Some (- 100)) =
     \<lparr>conclusion_text = In_Expected_Range, color = ''#222f3e'',
      percent_display = ''-150.0%'', diff_class = ''diff-negative''\<rparr> \<and>
   \<not> (50 :: rat) < - 100 \<and> \<not> \<bar>((50 :: rat) - (- 100)) / (- 100) * 100\<bar> \<le> 5"
proof -
  have "get_decision_conclusion 50 (Some (- 100)) =
     \<lparr>conclusion_text = In_Expected_Range, color = ''#222f3e'',
      percent_display = ''-150.0%'', diff_class = ''diff-negative''\<rparr>"
    by code_simp
  then show ?thesis by simp
qed

subsection \<open>The text normaliser\<close>

subsection \<open>Character classes\<close>


lemma sep_not_digit: "is_sep c \<Longrightarrow> \<not> is_digit c"
  by (auto simp: is_sep_def is_digit_def code_def)

lemma sep_not_word: "is_sep c \<Longrightarrow> \<not> is_word c"
  by (auto simp: is_sep_def is_word_def is_digit_def is_lower_def is_upper_def code_def)





subsection \<open>The shape of a match\<close>












subsection \<open>Deleting the dates leaves no date\<close>










subsection \<open>Whitespace, case and the normaliser\<close>
































subsection \<open>Dates in the normalised text\<close>






subsection \<open>The ratio of the sequence matcher\<close>

lemma size_sum_snoc [simp]: "size_sum (bs @ [(i, j, k)]) = size_sum bs + k"
  by (simp add: size_sum_def)

lemma size_sum_append [simp]: "size_sum (bs @ cs) = size_sum bs + size_sum cs"
  by (simp add: size_sum_def)

lemma size_sum_Nil [simp]: "size_sum [] = 0"
  by (simp add: size_sum_def)

lemma size_sum_Cons [simp]: "size_sum ((i, j, k) # bs) = k + size_sum bs"
  by (simp add: size_sum_def)

lemma blocks_loop_bound:
  "size_sum (blocks_loop a b queue mb) \<le> size_sum mb + span_a queue \<and>
   size_sum (blocks_loop a b queue mb) \<le> size_sum mb + span_b queue"
proof (induction a b queue mb rule: blocks_loop.induct)
  case (1 a b queue mb)
  show ?case
  proof (cases "queue = []")
    case True
    then have "blocks_loop a b queue mb = mb" by (subst blocks_loop.simps) simp
    then show ?thesis by simp
  next
    case False
    obtain alo ahi blo bhi where l: "last queue = (alo, ahi, blo, bhi)" by (cases "last queue")
    obtain i j k where m: "find_longest_match a b alo ahi blo bhi = (i, j, k)"
      by (cases "find_longest_match a b alo ahi blo bhi")
    from False l have q: "queue = butlast queue @ [(alo, ahi, blo, bhi)]"
      by (metis append_butlast_last_id)
    have sa: "span_a queue = span_a (butlast queue) + (ahi - alo)"
      by (subst q) (simp add: span_a_def)
    have sb: "span_b queue = span_b (butlast queue) + (bhi - blo)"
      by (subst q) (simp add: span_b_def)
    show ?thesis
    proof (cases "k = 0")
      case True
      have e: "blocks_loop a b queue mb = blocks_loop a b (butlast queue) mb"
        by (subst blocks_loop.simps) (simp add: False l m True)
      from "1.IH"(2) [of alo "(ahi, blo, bhi)" ahi "(blo, bhi)" blo bhi i "(j, k)" j k] False l m True
      have "size_sum (blocks_loop a b (butlast queue) mb) \<le> size_sum mb + span_a (butlast queue) \<and>
            size_sum (blocks_loop a b (butlast queue) mb) \<le> size_sum mb + span_b (butlast queue)"
        by simp
      then show ?thesis unfolding e sa sb by simp
    next
      case k: False
      define q' where "q' = butlast queue
                        @ (if alo < i \<and> blo < j then [(alo, i, blo, j)] else [])
                        @ (if i + k < ahi \<and> j + k < bhi then [(i + k, ahi, j + k, bhi)] else [])"
      have e: "blocks_loop a b queue mb = blocks_loop a b q' (mb @ [(i, j, k)])"
        unfolding q'_def by (subst blocks_loop.simps) (simp add: False l m k)
      from "1.IH"(1) [of alo "(ahi, blo, bhi)" ahi "(blo, bhi)" blo bhi i "(j, k)" j k] False l m k
      have ih: "size_sum (blocks_loop a b q' (mb @ [(i, j, k)])) \<le> size_sum (mb @ [(i, j, k)]) + span_a q' \<and>
            size_sum (blocks_loop a b q' (mb @ [(i, j, k)])) \<le> size_sum (mb @ [(i, j, k)]) + span_b q'"
        unfolding q'_def by simp
      from find_longest_match_good [of alo ahi blo bhi a b] m k
      have g: "alo \<le> i" "i + k \<le> ahi" "blo \<le> j" "j + k \<le> bhi" by (simp_all add: good_def)
      have "span_a q' \<le> span_a (butlast queue) + (i - alo) + (ahi - (i + k))"
        unfolding q'_def
        by (auto simp: span_a_def)
      with g have a: "k + span_a q' \<le> span_a queue" unfolding sa by simp
      have "span_b q' \<le> span_b (butlast queue) + (j - blo) + (bhi - (j + k))"
        unfolding q'_def
        by (auto simp: span_b_def)
      with g have b: "k + span_b q' \<le> span_b queue" unfolding sb by simp
      from ih a b show ?thesis unfolding e by simp
    qed
  qed
qed

lemma collapse_sum:
  "(case fold (\<lambda>blk st. collapse_step st blk) xs ((i1, j1, k1), na) of
      ((i, j, k), na') \<Rightarrow> k + size_sum na') = k1 + size_sum na + size_sum xs"
proof (induction xs arbitrary: i1 j1 k1 na)
  case Nil
  show ?case by simp
next
  case (Cons blk xs)
  obtain i2 j2 k2 where blk: "blk = (i2, j2, k2)" by (cases blk)
  show ?case
  proof (cases "i1 + k1 = i2 \<and> j1 + k1 = j2")
    case True
    then have "collapse_step ((i1, j1, k1), na) blk = ((i1, j1, k1 + k2), na)"
      by (simp add: collapse_step_def blk)
    with Cons.IH [of i1 j1 "k1 + k2" na] show ?thesis
      by (simp add: blk size_sum_def)
  next
    case False
    then have "collapse_step ((i1, j1, k1), na) blk
        = ((i2, j2, k2), if k1 \<noteq> 0 then na @ [(i1, j1, k1)] else na)"
      by (simp add: collapse_step_def blk)
    with Cons.IH [of i2 j2 k2 "if k1 \<noteq> 0 then na @ [(i1, j1, k1)] else na"] show ?thesis
      by (simp add: blk size_sum_def)
  qed
qed

lemma size_sum_sort: "size_sum (sort xs) = size_sum xs"
proof -
  have "mset (map (\<lambda>(i, j, k). k) (sort xs)) = mset (map (\<lambda>(i, j, k). k) xs)"
    by simp
  then have "sum_mset (mset (map (\<lambda>(i, j, k). k) (sort xs)))
      = sum_mset (mset (map (\<lambda>(i, j, k). k) xs))"
    by (rule arg_cong)
  then show ?thesis
    unfolding size_sum_def sum_mset_sum_list .
qed

lemma get_matching_blocks_sum:
  "size_sum (get_matching_blocks a b) = size_sum (blocks_loop a b [(0, length a, 0, length b)] [])"
proof -
  define mbs where "mbs = sort (blocks_loop a b [(0, length a, 0, length b)] [])"
  obtain i j k na where f: "fold (\<lambda>blk st. collapse_step st blk) mbs ((0, 0, 0), []) = ((i, j, k), na)"
    by (cases "fold (\<lambda>blk st. collapse_step st blk) mbs ((0, 0, 0), [])") auto
  from collapse_sum [of mbs 0 0 0 "[]"] f have s: "k + size_sum na = size_sum mbs" by simp
  have "get_matching_blocks a b = (if k \<noteq> 0 then na @ [(i, j, k)] else na) @ [(length a, length b, 0)]"
    unfolding get_matching_blocks_def Let_def mbs_def [symmetric] f by simp
  then have "size_sum (get_matching_blocks a b) = k + size_sum na" by simp
  with s show ?thesis unfolding mbs_def by (simp add: size_sum_sort)
qed

lemma ratio_range: "0 \<le> sequence_matcher_ratio a b \<and> sequence_matcher_ratio a b \<le> 1"
proof -
  define M where "M = size_sum (get_matching_blocks a b)"
  from blocks_loop_bound [of a b "[(0, length a, 0, length b)]" "[]"]
  have "M \<le> length a" "M \<le> length b"
    unfolding M_def get_matching_blocks_sum by (simp_all add: span_a_def span_b_def)
  then have le: "2 * M \<le> length a + length b" by simp
  have r: "sequence_matcher_ratio a b = calculate_ratio M (length a + length b)"
    unfolding sequence_matcher_ratio_def Let_def M_def size_sum_def ..
  show ?thesis
  proof (cases "length a + length b = 0")
    case True
    then show ?thesis unfolding r calculate_ratio_def by simp
  next
    case False
    define L where "L = length a + length b"
    from False have "0 < L" unfolding L_def by simp
    then have pos: "(0 :: rat) < of_nat L" by simp
    from le have "(of_nat (2 * M) :: rat) \<le> of_nat L" unfolding L_def by (rule of_nat_mono)
    then have "2 * of_nat M \<le> (1 :: rat) * of_nat L" by simp
    with pos have up: "2 * of_nat M / (of_nat L :: rat) \<le> 1" by (simp only: pos_divide_le_eq)
    have lo: "0 \<le> 2 * of_nat M / (of_nat L :: rat)" by simp
    from False have "sequence_matcher_ratio a b = 2 * of_nat M / of_nat L"
      unfolding r calculate_ratio_def L_def by simp
    with lo up show ?thesis by simp
  qed
qed

lemma run_diag_Suc:
  "Suc i < length xs \<Longrightarrow> \<not> popular xs (xs ! Suc i) \<Longrightarrow> run xs (Suc i) (Suc i) = run xs i i + 1"
  by simp

lemma run_diag_pos:
  "i < length xs \<Longrightarrow> \<not> popular xs (xs ! i) \<Longrightarrow> 1 \<le> run xs i i"
  by (cases i) simp_all

lemma run_dominated:
  "i < length xs \<Longrightarrow> j < length xs \<Longrightarrow> run xs i j \<le> run xs j j \<and> run xs i j \<le> run xs i i"
proof (induction i arbitrary: j)
  case 0
  show ?case
  proof (cases "xs ! 0 = xs ! j \<and> \<not> popular xs (xs ! j)")
    case True
    with 0 have "run xs 0 j = 1" by simp
    moreover from True 0 have "1 \<le> run xs j j" by (intro run_diag_pos) simp_all
    moreover from True 0 have "1 \<le> run xs 0 0" by (intro run_diag_pos) simp_all
    ultimately show ?thesis by simp
  next
    case False
    then have "run xs 0 j = 0" by auto
    then show ?thesis by simp
  qed
next
  case (Suc i)
  show ?case
  proof (cases "xs ! Suc i = xs ! j \<and> \<not> popular xs (xs ! j)")
    case False
    then have "run xs (Suc i) j = 0" by auto
    then show ?thesis by simp
  next
    case True
    then have np: "\<not> popular xs (xs ! Suc i)" "\<not> popular xs (xs ! j)" by simp_all
    show ?thesis
    proof (cases j)
      case 0
      with True Suc.prems have "run xs (Suc i) j = 1" by simp
      moreover from np Suc.prems have "1 \<le> run xs j j" by (intro run_diag_pos)
      moreover from np Suc.prems have "1 \<le> run xs (Suc i) (Suc i)" by (intro run_diag_pos)
      ultimately show ?thesis by simp
    next
      case js: (Suc j')
      with True Suc.prems have r: "run xs (Suc i) j = run xs i j' + 1" by simp
      from Suc.prems js have lt: "i < length xs" "j' < length xs" "Suc j' < length xs" by simp_all
      from Suc.IH [OF lt(1,2)] have ih: "run xs i j' \<le> run xs j' j'" "run xs i j' \<le> run xs i i"
        by simp_all
      from np(2) js have npj: "\<not> popular xs (xs ! Suc j')" by simp
      from lt(3) npj have "run xs (Suc j') (Suc j') = run xs j' j' + 1"
        by (rule run_diag_Suc)
      then have dj: "run xs j j = run xs j' j' + 1" unfolding js .
      from Suc.prems(1) np(1) have di: "run xs (Suc i) (Suc i) = run xs i i + 1"
        by (rule run_diag_Suc)
      show ?thesis using r ih dj di by simp
    qed
  qed
qed

lemma b2j_filter: "b2j b e = filter (\<lambda>j. b ! j = e \<and> \<not> popular b e) [0..<length b]"
  by (simp add: b2j_def)

lemma inner_loop_append:
  "\<forall>j\<in>set js. j < bhi \<Longrightarrow>
   inner_loop d i blo bhi (js @ js') st = inner_loop d i blo bhi js' (inner_loop d i blo bhi js st)"
proof (induction js arbitrary: st)
  case Nil
  show ?case by simp
next
  case (Cons j js)
  obtain new bi bj bs where st: "st = (new, bi, bj, bs)" by (cases st)
  from Cons.prems have lt: "\<not> bhi \<le> j" and rest: "\<forall>j\<in>set js. j < bhi" by simp_all
  show ?case
    unfolding st using lt Cons.IH [OF rest] by (simp add: Let_def)
qed

lemma run_step:
  assumes "t < length xs" and "xs ! t = xs ! i" and "\<not> popular xs (xs ! i)"
  shows "(if t = 0 then 0 else prev_row xs i (t - 1)) + 1 = run xs i t"
  using assms by (cases i; cases t) (simp_all add: prev_row_def)

lemma run_zero:
  assumes "\<not> (xs ! t = xs ! i \<and> \<not> popular xs (xs ! i))"
  shows "run xs i t = 0"
  using assms by (cases i) auto

lemma row_inv_step:
  assumes i: "i < length xs"
    and prev: "\<forall>j. get0 d j = prev_row xs i j"
    and best0: "bi = bj" "\<forall>i' j'. i' < i \<longrightarrow> run xs i' j' \<le> bs"
  shows "t \<le> length xs \<Longrightarrow>
    row_inv xs i t (inner_loop d i 0 (length xs)
      (filter (\<lambda>j. xs ! j = xs ! i \<and> \<not> popular xs (xs ! i)) [0..<t]) (Map.empty, bi, bj, bs))"
proof (induction t)
  case 0
  show ?case using best0 by (simp add: row_inv_def)
next
  case (Suc t)
  define Q where "Q = (\<lambda>j. xs ! j = xs ! i \<and> \<not> popular xs (xs ! i))"
  define st where "st = inner_loop d i 0 (length xs) (filter Q [0..<t]) (Map.empty, bi, bj, bs)"
  from Suc have ih: "row_inv xs i t st" and t: "t < length xs" unfolding st_def Q_def by simp_all
  obtain new ci cj cs where st_eq: "st = (new, ci, cj, cs)" by (cases st)
  from ih have new: "\<forall>j. get0 new j = (if j < t then run xs i j else 0)"
    and diag: "ci = cj"
    and mx: "\<forall>i' j'. i' < i \<or> (i' = i \<and> j' < t) \<longrightarrow> run xs i' j' \<le> cs"
    unfolding row_inv_def st_eq by simp_all
  have bound: "\<forall>j\<in>set (filter Q [0..<t]). j < length xs" using t by simp
  have split: "filter Q [0..<Suc t] = filter Q [0..<t] @ (if Q t then [t] else [])" by simp
  have e: "inner_loop d i 0 (length xs) (filter Q [0..<Suc t]) (Map.empty, bi, bj, bs)
      = inner_loop d i 0 (length xs) (if Q t then [t] else []) st"
    unfolding split st_def using bound by (rule inner_loop_append)
  show ?case
  proof (cases "Q t")
    case False
    then have z: "run xs i t = 0" unfolding Q_def by (rule run_zero)
    from False e have "inner_loop d i 0 (length xs) (filter Q [0..<Suc t]) (Map.empty, bi, bj, bs) = st"
      by simp
    moreover have "row_inv xs i (Suc t) st"
      unfolding row_inv_def st_eq using new diag mx z by (auto simp: less_Suc_eq)
    ultimately show ?thesis unfolding Q_def by simp
  next
    case True
    define k where "k = (if t = 0 then 0 else get0 d (t - 1)) + 1"
    from True have q: "xs ! t = xs ! i" "\<not> popular xs (xs ! i)" unfolding Q_def by simp_all
    from prev have pe: "get0 d (t - 1) = prev_row xs i (t - 1)" by (rule spec)
    have k: "k = run xs i t"
      unfolding k_def pe using t q by (rule run_step)
    have step: "inner_loop d i 0 (length xs) [t] st
        = (new(t \<mapsto> k), if cs < k then (i + 1 - k, t + 1 - k, k) else (ci, cj, cs))"
      unfolding st_eq k_def using t by (simp add: Let_def)
    have d: "t = i" if "cs < k"
    proof (rule ccontr)
      assume "t \<noteq> i"
      then consider "t < i" | "i < t" by linarith
      then show False
      proof cases
        case 1
        from run_dominated [OF i t] have "run xs i t \<le> run xs t t" by simp
        also from mx 1 have "\<dots> \<le> cs" by blast
        finally show False using that k by simp
      next
        case 2
        from run_dominated [OF i t] have "run xs i t \<le> run xs i i" by simp
        also from mx 2 have "\<dots> \<le> cs" by blast
        finally show False using that k by simp
      qed
    qed
    have "row_inv xs i (Suc t) (new(t \<mapsto> k), if cs < k then (i + 1 - k, t + 1 - k, k) else (ci, cj, cs))"
    proof (cases "cs < k")
      case True
      have "\<forall>i' j'. i' < i \<or> (i' = i \<and> j' < Suc t) \<longrightarrow> run xs i' j' \<le> k"
      proof (intro allI impI)
        fix i' j' assume h: "i' < i \<or> (i' = i \<and> j' < Suc t)"
        show "run xs i' j' \<le> k"
        proof (cases "i' = i \<and> j' = t")
          case True
          then show ?thesis using k by simp
        next
          case False
          with h have "i' < i \<or> (i' = i \<and> j' < t)" by auto
          with mx have "run xs i' j' \<le> cs" by blast
          with True show ?thesis by simp
        qed
      qed
      with True d [OF True] new k show ?thesis
        by (simp add: row_inv_def less_Suc_eq)
    next
      case False
      have "\<forall>i' j'. i' < i \<or> (i' = i \<and> j' < Suc t) \<longrightarrow> run xs i' j' \<le> cs"
      proof (intro allI impI)
        fix i' j' assume h: "i' < i \<or> (i' = i \<and> j' < Suc t)"
        show "run xs i' j' \<le> cs"
        proof (cases "i' = i \<and> j' = t")
          case True
          then show ?thesis using k False by simp
        next
          case F: False
          with h have "i' < i \<or> (i' = i \<and> j' < t)" by auto
          with mx show ?thesis by blast
        qed
      qed
      with False diag new k show ?thesis
        by (simp add: row_inv_def less_Suc_eq)
    qed
    with True e step show ?thesis unfolding Q_def by simp
  qed
qed

lemma run_outside: "length xs \<le> j \<Longrightarrow> run xs i j = 0"
  by (cases i) simp_all

lemma main_loop_diag:
  "m \<le> length xs \<Longrightarrow>
   main_inv xs m (fold (outer_step xs xs 0 (length xs)) [0..<m] (Map.empty, (0, 0, 0)))"
proof (induction m)
  case 0
  show ?case by (simp add: main_inv_def prev_row_def)
next
  case (Suc m)
  define st where "st = fold (outer_step xs xs 0 (length xs)) [0..<m] (Map.empty, (0, 0, 0))"
  from Suc have ih: "main_inv xs m st" and m: "m < length xs" unfolding st_def by simp_all
  obtain d bi bj bs where st_eq: "st = (d, bi, bj, bs)" by (cases st)
  from ih have prev: "\<forall>j. get0 d j = prev_row xs m j" and diag: "bi = bj"
    and mx: "\<forall>i' j'. i' < m \<longrightarrow> run xs i' j' \<le> bs"
    unfolding main_inv_def st_eq by simp_all
  define st' where "st' = inner_loop d m 0 (length xs)
      (filter (\<lambda>j. xs ! j = xs ! m \<and> \<not> popular xs (xs ! m)) [0..<length xs]) (Map.empty, bi, bj, bs)"
  have e: "fold (outer_step xs xs 0 (length xs)) [0..<Suc m] (Map.empty, (0, 0, 0)) = st'"
    unfolding st'_def by (simp add: st_def [symmetric] st_eq outer_step_def b2j_filter)
  from row_inv_step [OF m prev diag mx, of "length xs"] have r: "row_inv xs m (length xs) st'"
    unfolding st'_def by simp
  obtain new ci cj cs where st'_eq: "st' = (new, ci, cj, cs)" by (cases st')
  from r have new: "\<forall>j. get0 new j = (if j < length xs then run xs m j else 0)"
    and diag': "ci = cj"
    and mx': "\<forall>i' j'. i' < m \<or> (i' = m \<and> j' < length xs) \<longrightarrow> run xs i' j' \<le> cs"
    unfolding row_inv_def st'_eq by simp_all
  have p: "\<forall>j. get0 new j = prev_row xs (Suc m) j"
    using new run_outside [of xs _ m] by (simp add: prev_row_def)
  have q: "\<forall>i' j'. i' < Suc m \<longrightarrow> run xs i' j' \<le> cs"
  proof (intro allI impI)
    fix i' j' assume "i' < Suc m"
    show "run xs i' j' \<le> cs"
    proof (cases "j' < length xs")
      case True
      with \<open>i' < Suc m\<close> mx' show ?thesis by (auto simp: less_Suc_eq)
    next
      case False
      then show ?thesis by (simp add: run_outside)
    qed
  qed
  show ?case unfolding e st'_eq main_inv_def using p diag' q by simp
qed

lemma extend_back_diag:
  "extend_back (\<lambda>x. \<not> isbjunk x) xs xs 0 0 (d, d, s) = (0, 0, s + d)"
proof (induction d arbitrary: s)
  case 0
  show ?case by (subst extend_back.simps) simp
next
  case (Suc d)
  have "extend_back (\<lambda>x. \<not> isbjunk x) xs xs 0 0 (Suc d, Suc d, s)
      = extend_back (\<lambda>x. \<not> isbjunk x) xs xs 0 0 (d, d, s + 1)"
    by (subst extend_back.simps) (simp add: isbjunk_def)
  with Suc [of "s + 1"] show ?case by simp
qed

lemma extend_forward_diag:
  "s \<le> n \<Longrightarrow> extend_forward (\<lambda>x. \<not> isbjunk x) xs xs n n (0, 0, s) = (0, 0, n)"
proof (induction "n - s" arbitrary: s)
  case 0
  then have "s = n" by simp
  then show ?case by (subst extend_forward.simps) simp
next
  case (Suc m)
  then have lt: "s < n" by simp
  then have "extend_forward (\<lambda>x. \<not> isbjunk x) xs xs n n (0, 0, s)
      = extend_forward (\<lambda>x. \<not> isbjunk x) xs xs n n (0, 0, s + 1)"
    by (subst extend_forward.simps) (simp add: isbjunk_def)
  moreover from Suc(2) lt have "m = n - (s + 1)" by simp
  from Suc(1) [OF this] lt have "extend_forward (\<lambda>x. \<not> isbjunk x) xs xs n n (0, 0, s + 1) = (0, 0, n)"
    by simp
  ultimately show ?case by simp
qed

lemma find_longest_match_same:
  "find_longest_match xs xs 0 (length xs) 0 (length xs) = (0, 0, length xs)"
proof -
  define n where "n = length xs"
  define st where "st = main_loop xs xs 0 n 0 n"
  obtain d bi bj bs where st_eq: "st = (d, bi, bj, bs)" by (cases st)
  from main_loop_diag [of n xs] have "main_inv xs n st"
    unfolding st_def main_loop_def n_def by simp
  then have diag: "bi = bj" unfolding main_inv_def st_eq by simp
  from main_loop_good [of n n 0 0 xs xs n] have "good 0 n 0 n (snd st)"
    unfolding st_def main_loop_def by simp
  then have le: "bi + bs \<le> n" unfolding st_eq good_def by auto
  have b1: "extend_back (\<lambda>x. \<not> isbjunk x) xs xs 0 0 (snd st) = (0, 0, bs + bi)"
    unfolding st_eq using diag extend_back_diag [of xs bj bs] by simp
  have b2: "extend_forward (\<lambda>x. \<not> isbjunk x) xs xs n n (0, 0, bs + bi) = (0, 0, n)"
    using le by (intro extend_forward_diag) simp
  have b3: "extend_back isbjunk xs xs 0 0 (0, 0, n) = (0, 0, n)"
    by (subst extend_back.simps) simp
  have b4: "extend_forward isbjunk xs xs n n (0, 0, n) = (0, 0, n)"
    by (subst extend_forward.simps) simp
  show ?thesis
    unfolding find_longest_match_def Let_def n_def [symmetric] st_def [symmetric] b1 b2 b3 b4 ..
qed

lemma blocks_loop_same:
  "size_sum (blocks_loop xs xs [(0, length xs, 0, length xs)] []) = length xs"
proof (cases "length xs = 0")
  case True
  then have xs: "xs = []" by simp
  have f: "find_longest_match [] [] 0 0 0 0 = (0, 0, 0)"
    using find_longest_match_same [of "[]"] by simp
  have "blocks_loop [] [] [(0, 0, 0, 0)] [] = blocks_loop [] [] [] []"
    by (subst blocks_loop.simps) (simp add: f)
  also have "\<dots> = []" by (subst blocks_loop.simps) simp
  finally show ?thesis unfolding xs by simp
next
  case False
  have "blocks_loop xs xs [(0, length xs, 0, length xs)] []
      = blocks_loop xs xs [] [(0, 0, length xs)]"
    using False by (subst blocks_loop.simps) (simp add: find_longest_match_same)
  also have "\<dots> = [(0, 0, length xs)]" by (subst blocks_loop.simps) simp
  finally show ?thesis by simp
qed

lemma ratio_same: "sequence_matcher_ratio xs xs = 1"
proof -
  have "size_sum (get_matching_blocks xs xs) = length xs"
    unfolding get_matching_blocks_sum by (rule blocks_loop_same)
  then have "sequence_matcher_ratio xs xs = calculate_ratio (length xs) (length xs + length xs)"
    unfolding sequence_matcher_ratio_def Let_def size_sum_def by simp
  then show ?thesis by (simp add: calculate_ratio_def)
qed

subsection \<open>The sequence overlap\<close>

text \<open>
  Claim C8. The sequence overlap is 0 whenever either argument is the empty string (the
  guard of line 121 comes first), it is 100 whenever the two arguments, neither of them
  empty, split into identical token sequences, and it always lies between 0 and 100.
\<close>

theorem semantic_overlap_bounds:
  "(a = [] \<or> b = [] \<longrightarrow> semantic_overlap sequence_matcher_ratio a b = 0) \<and>
   (a \<noteq> [] \<and> b \<noteq> [] \<and> split_ws a = split_ws b
      \<longrightarrow> semantic_overlap sequence_matcher_ratio a b = 100) \<and>
   0 \<le> semantic_overlap sequence_matcher_ratio a b \<and>
   semantic_overlap sequence_matcher_ratio a b \<le> 100"
proof (intro conjI impI)
  assume "a = [] \<or> b = []"
  then show "semantic_overlap sequence_matcher_ratio a b = 0"
    by (auto simp: semantic_overlap_def)
next
  assume "a \<noteq> [] \<and> b \<noteq> [] \<and> split_ws a = split_ws b"
  then show "semantic_overlap sequence_matcher_ratio a b = 100"
    by (simp add: semantic_overlap_def ratio_same)
next
  from ratio_range [of "split_ws a" "split_ws b"]
  show "0 \<le> semantic_overlap sequence_matcher_ratio a b"
    by (simp add: semantic_overlap_def)
next
  from ratio_range [of "split_ws a" "split_ws b"]
  have "sequence_matcher_ratio (split_ws a) (split_ws b) * 100 \<le> 1 * 100"
    by (intro mult_right_mono) simp_all
  then show "semantic_overlap sequence_matcher_ratio a b \<le> 100"
    by (simp add: semantic_overlap_def)
qed

theorem semantic_overlap_bounds_witness:
  "''x y'' \<noteq> [] \<and> ''x  y'' \<noteq> [] \<and> split_ws ''x y'' = split_ws ''x  y'' \<and>
   semantic_overlap sequence_matcher_ratio ''x y'' ''x  y'' = 100 \<and>
   ('''' = [] \<or> ''x y'' = []) \<and> semantic_overlap sequence_matcher_ratio '''' ''x y'' = 0"
proof -
  have ne: "''x y'' \<noteq> [] \<and> ''x  y'' \<noteq> [] \<and> split_ws ''x y'' = split_ws ''x  y''"
    by code_simp
  have em: "'''' = [] \<or> ''x y'' = []" by simp
  note t1 = semantic_overlap_bounds [of "''x y''" "''x  y''", THEN conjunct2, THEN conjunct1]
  note t0 = semantic_overlap_bounds [of "''''" "''x y''", THEN conjunct1]
  from mp [OF t1 ne] mp [OF t0 em] ne em show ?thesis by (intro conjI) simp_all
qed

end
